theory Spec2Isabelle
  imports Complex_Main "HOL-Library.Word"
begin

unbundle bit_operations_syntax

section \<open>Net model (petri.py)\<close>

text \<open>
  The dataclasses \<^verbatim>\<open>Transition\<close> and \<^verbatim>\<open>PetriNet\<close>. Markings and masks are
  Python integers used as bit sets: bit \<open>i\<close> stands for place \<open>i\<close> of \<open>places\<close>.
  Python integers are unbounded and behave as infinite two's complement under
  \<^verbatim>\<open>&\<close>, \<^verbatim>\<open>|\<close>, \<^verbatim>\<open>~\<close>, \<^verbatim>\<open>>>\<close>, which is what \<open>AND\<close>, \<open>OR\<close>, \<open>NOT\<close>, \<open>drop_bit\<close>
  are on \<open>int\<close>. The field \<^verbatim>\<open>id\<close> is called \<open>tid\<close> here.
\<close>

record transition =
  tid :: string
  tname :: string
  pre_mask :: int
  post_mask :: int

record petri_net =
  places :: "string list"
  place_index :: "string \<rightharpoonup> nat"
  transitions :: "transition list"
  initial :: int

section \<open>Explicit semantics (reachability.py)\<close>

definition is_enabled :: "int \<Rightarrow> transition \<Rightarrow> bool" where
  "is_enabled M t = ((M AND pre_mask t) = pre_mask t)"

definition fire :: "int \<Rightarrow> transition \<Rightarrow> int" where
  "fire M t = ((M AND NOT (pre_mask t)) OR post_mask t)"

section \<open>Diagram manager (the \<^verbatim>\<open>dd\<close> library used by symbolic_bdd.py)\<close>

text \<open>
  Modelled from the spec: the diagram manager (\<^verbatim>\<open>dd.autoref.BDD\<close>, an external library
  whose code is not part of the repository). Section 4.1 of the spec fixes its contract:
  reduced ordered decision diagrams over a fixed variable order, kept canonical by a node
  table keyed by (variable, low, high), so that two diagrams of the same boolean function
  are the same handle. A handle is modelled by the diagram itself: \<open>Node v l h\<close> tests the
  variable of level \<open>v\<close>, \<open>l\<close> is the low child (variable 0), \<open>h\<close> the high child, and
  handle equality is equality of diagrams. \<open>mk\<close> is the node-table lookup: it never builds
  a node with two equal children. Variables are identified with their level in the
  declared order.
\<close>

datatype bdd = Leaf bool | Node nat bdd bdd

text \<open>\<^verbatim>\<open>evaluate(a, assignment)\<close>: follow the one path the assignment selects.\<close>

fun sat :: "bdd \<Rightarrow> (nat \<Rightarrow> bool) \<Rightarrow> bool" where
  "sat (Leaf b) s = b"
| "sat (Node v l h) s = (if s v then sat h s else sat l s)"

definition mk :: "nat \<Rightarrow> bdd \<Rightarrow> bdd \<Rightarrow> bdd" where
  "mk v l h = (if l = h then l else Node v l h)"

text \<open>
  \<^verbatim>\<open>apply(op, a, b)\<close>: the canonical diagram of the combination, by simultaneous descent
  on the smaller top variable. \<^verbatim>\<open>apply("and", a, b)\<close> is \<open>bdd_and\<close>, \<^verbatim>\<open>apply("or", a, b)\<close> is
  \<open>bdd_or\<close>, \<^verbatim>\<open>apply("not", a)\<close> is \<open>bdd_not\<close>, \<^verbatim>\<open>var(name)\<close> is \<open>bdd_var\<close>.
\<close>

fun bdd_apply :: "(bool \<Rightarrow> bool \<Rightarrow> bool) \<Rightarrow> bdd \<Rightarrow> bdd \<Rightarrow> bdd" where
  "bdd_apply f (Leaf a) (Leaf b) = Leaf (f a b)"
| "bdd_apply f (Node v l h) (Leaf b) = mk v (bdd_apply f l (Leaf b)) (bdd_apply f h (Leaf b))"
| "bdd_apply f (Leaf a) (Node w l h) = mk w (bdd_apply f (Leaf a) l) (bdd_apply f (Leaf a) h)"
| "bdd_apply f (Node v l h) (Node w l' h') =
     (if v < w then mk v (bdd_apply f l (Node w l' h')) (bdd_apply f h (Node w l' h'))
      else if w < v then mk w (bdd_apply f (Node v l h) l') (bdd_apply f (Node v l h) h')
      else mk v (bdd_apply f l l') (bdd_apply f h h'))"

definition bdd_and :: "bdd \<Rightarrow> bdd \<Rightarrow> bdd" where
  "bdd_and a b = bdd_apply (\<and>) a b"

definition bdd_or :: "bdd \<Rightarrow> bdd \<Rightarrow> bdd" where
  "bdd_or a b = bdd_apply (\<or>) a b"

fun bdd_not :: "bdd \<Rightarrow> bdd" where
  "bdd_not (Leaf b) = Leaf (\<not> b)"
| "bdd_not (Node v l h) = Node v (bdd_not l) (bdd_not h)"

definition bdd_var :: "nat \<Rightarrow> bdd" where
  "bdd_var v = Node v (Leaf False) (Leaf True)"

text \<open>
  \<^verbatim>\<open>exist(variableSet, a)\<close>: eliminate the variables of the set by OR-ing the two
  cofactors, recursively.
\<close>

fun bdd_exist :: "nat set \<Rightarrow> bdd \<Rightarrow> bdd" where
  "bdd_exist vs (Leaf b) = Leaf b"
| "bdd_exist vs (Node v l h) =
     (if v \<in> vs then bdd_or (bdd_exist vs l) (bdd_exist vs h)
      else mk v (bdd_exist vs l) (bdd_exist vs h))"

text \<open>
  \<^verbatim>\<open>let(mapping, a)\<close>: substitute diagrams for variables (a renaming when the diagrams
  are variables, a cofactor when they are constants). The result is the canonical diagram
  of the composed function, built here with if-then-else.
\<close>

definition bdd_ite :: "bdd \<Rightarrow> bdd \<Rightarrow> bdd \<Rightarrow> bdd" where
  "bdd_ite g a b = bdd_or (bdd_and g a) (bdd_and (bdd_not g) b)"

fun bdd_let :: "(nat \<rightharpoonup> bdd) \<Rightarrow> bdd \<Rightarrow> bdd" where
  "bdd_let m (Leaf b) = Leaf b"
| "bdd_let m (Node v l h) =
     bdd_ite (case m v of Some g \<Rightarrow> g | None \<Rightarrow> bdd_var v) (bdd_let m h) (bdd_let m l)"

text \<open>
  The canonical form: levels strictly increase along every path, starting at \<open>n\<close> or
  above, and no node has two equal children.
\<close>

fun robdd_from :: "nat \<Rightarrow> bdd \<Rightarrow> bool" where
  "robdd_from n (Leaf b) = True"
| "robdd_from n (Node v l h) = (n \<le> v \<and> l \<noteq> h \<and> robdd_from (Suc v) l \<and> robdd_from (Suc v) h)"

subsection \<open>Semantics and canonicity of the diagram operations\<close>

lemma sat_mk [simp]: "sat (mk v l h) s = (if s v then sat h s else sat l s)"
  by (simp add: mk_def)

lemma sat_apply [simp]: "sat (bdd_apply f a b) s = f (sat a s) (sat b s)"
  by (induction f a b rule: bdd_apply.induct) auto

lemma sat_and [simp]: "sat (bdd_and a b) s = (sat a s \<and> sat b s)"
  by (simp add: bdd_and_def)

lemma sat_or [simp]: "sat (bdd_or a b) s = (sat a s \<or> sat b s)"
  by (simp add: bdd_or_def)

lemma sat_not [simp]: "sat (bdd_not a) s = (\<not> sat a s)"
  by (induction a) auto

lemma sat_var [simp]: "sat (bdd_var v) s = s v"
  by (simp add: bdd_var_def)

lemma sat_ite [simp]: "sat (bdd_ite g a b) s = (if sat g s then sat a s else sat b s)"
  by (simp add: bdd_ite_def)

lemma sat_let: "sat (bdd_let m b) s = sat b (\<lambda>v. case m v of Some g \<Rightarrow> sat g s | None \<Rightarrow> s v)"
  by (induction b) (auto split: option.splits)

lemma robdd_from_mono: "robdd_from n b \<Longrightarrow> m \<le> n \<Longrightarrow> robdd_from m b"
  by (cases b) auto

lemma robdd_from_mk: "n \<le> v \<Longrightarrow> robdd_from (Suc v) l \<Longrightarrow> robdd_from (Suc v) h \<Longrightarrow> robdd_from n (mk v l h)"
  by (auto simp: mk_def intro: robdd_from_mono)

lemma robdd_from_apply:
  "robdd_from n a \<Longrightarrow> robdd_from n b \<Longrightarrow> robdd_from n (bdd_apply f a b)"
proof (induction f a b arbitrary: n rule: bdd_apply.induct)
  case (1 f a b)
  then show ?case by simp
next
  case (2 f v l h b)
  then show ?case by (auto intro!: robdd_from_mk)
next
  case (3 f a w l h)
  then show ?case by (auto intro!: robdd_from_mk)
next
  case (4 f v l h w l' h')
  show ?case
  proof (cases "v < w")
    case True
    have n: "robdd_from (Suc v) (Node w l' h')" using "4.prems" True by auto
    show ?thesis using True "4.prems" n 4(1)[OF True _ n] 4(2)[OF True _ n]
      by (auto intro!: robdd_from_mk)
  next
    case False
    show ?thesis
    proof (cases "w < v")
      case True
      have n: "robdd_from (Suc w) (Node v l h)" using "4.prems" True by auto
      show ?thesis using True False "4.prems" n 4(3)[OF False True n] 4(4)[OF False True n]
        by (auto intro!: robdd_from_mk)
    next
      case f2: False
      then have e: "v = w" using False by simp
      show ?thesis using False f2 e "4.prems" 4(5)[OF False f2] 4(6)[OF False f2]
        by (auto intro!: robdd_from_mk)
    qed
  qed
qed

lemma sat_indep: "robdd_from n b \<Longrightarrow> (\<forall>v\<ge>n. s v = s' v) \<Longrightarrow> sat b s = sat b s'"
  by (induction b arbitrary: n) auto

lemma bdd_not_inj: "bdd_not a = bdd_not b \<Longrightarrow> a = b"
  by (induction a arbitrary: b) (case_tac b; auto)+

lemma robdd_from_not: "robdd_from n a \<Longrightarrow> robdd_from n (bdd_not a)"
  by (induction a arbitrary: n) (auto dest: bdd_not_inj)


lemma robdd_from_var: "n \<le> v \<Longrightarrow> robdd_from n (bdd_var v)"
  by (simp add: bdd_var_def)

lemma robdd_from_and: "robdd_from n a \<Longrightarrow> robdd_from n b \<Longrightarrow> robdd_from n (bdd_and a b)"
  by (simp add: bdd_and_def robdd_from_apply)

lemma robdd_from_or: "robdd_from n a \<Longrightarrow> robdd_from n b \<Longrightarrow> robdd_from n (bdd_or a b)"
  by (simp add: bdd_or_def robdd_from_apply)

lemma robdd_from_ite:
  "robdd_from n g \<Longrightarrow> robdd_from n a \<Longrightarrow> robdd_from n b \<Longrightarrow> robdd_from n (bdd_ite g a b)"
  by (simp add: bdd_ite_def robdd_from_and robdd_from_or robdd_from_not)

lemma robdd_from_exist: "robdd_from n b \<Longrightarrow> robdd_from n (bdd_exist vs b)"
proof (induction b arbitrary: n)
  case (Leaf x)
  then show ?case by simp
next
  case (Node v l h)
  then have "robdd_from (Suc v) (bdd_exist vs l)" "robdd_from (Suc v) (bdd_exist vs h)" "n \<le> v"
    by auto
  then show ?case
    by (auto intro!: robdd_from_mk robdd_from_or intro: robdd_from_mono)
qed

lemma robdd_from_0: "robdd_from n b \<Longrightarrow> robdd_from 0 b"
  by (rule robdd_from_mono) simp_all

lemma robdd_let:
  "(\<And>v g. m v = Some g \<Longrightarrow> robdd_from 0 g) \<Longrightarrow> robdd_from 0 (bdd_let m b)"
proof (induction b)
  case (Leaf x)
  then show ?case by simp
next
  case (Node v l h)
  have "robdd_from 0 (case m v of Some g \<Rightarrow> g | None \<Rightarrow> bdd_var v)"
    using Node.prems by (auto split: option.splits simp: robdd_from_var)
  then show ?case using Node by (auto intro!: robdd_from_ite)
qed

lemma robdd_nonconst: "robdd_from n b \<Longrightarrow> b \<noteq> Leaf x \<Longrightarrow> \<exists>s. sat b s \<noteq> x"
proof (induction b arbitrary: n)
  case (Leaf y)
  then show ?case by simp
next
  case (Node v l h)
  then have lh: "l \<noteq> h" and rl: "robdd_from (Suc v) l" and rh: "robdd_from (Suc v) h" by auto
  from lh have "l \<noteq> Leaf x \<or> h \<noteq> Leaf x" by auto
  then show ?case
  proof
    assume "l \<noteq> Leaf x"
    from Node.IH(1)[OF rl this] obtain s where s: "sat l s \<noteq> x" by blast
    have "sat l (s(v := False)) = sat l s" by (rule sat_indep[OF rl]) simp
    with s have "sat (Node v l h) (s(v := False)) \<noteq> x" by simp
    then show ?thesis by blast
  next
    assume "h \<noteq> Leaf x"
    from Node.IH(2)[OF rh this] obtain s where s: "sat h s \<noteq> x" by blast
    have "sat h (s(v := True)) = sat h s" by (rule sat_indep[OF rh]) simp
    with s have "sat (Node v l h) (s(v := True)) \<noteq> x" by simp
    then show ?thesis by blast
  qed
qed

lemma sat_low: "robdd_from n (Node v l h) \<Longrightarrow> sat l s = sat (Node v l h) (s(v := False))"
  using sat_indep[of "Suc v" l s "s(v := False)"] by simp

lemma sat_high: "robdd_from n (Node v l h) \<Longrightarrow> sat h s = sat (Node v l h) (s(v := True))"
  using sat_indep[of "Suc v" h s "s(v := True)"] by simp

lemma robdd_canonical_aux:
  "size a + size b = k \<Longrightarrow> robdd_from n a \<Longrightarrow> robdd_from m b \<Longrightarrow> (\<forall>s. sat a s = sat b s) \<Longrightarrow> a = b"
proof (induction k arbitrary: a b n m rule: less_induct)
  case (less k)
  show ?case
  proof (cases a)
    case la: (Leaf x)
    show ?thesis
    proof (cases b)
      case (Leaf y)
      with la less.prems show ?thesis by simp
    next
      case (Node w l' h')
      with la less.prems robdd_nonconst[of m b x] show ?thesis by auto
    qed
  next
    case na: (Node v l h)
    show ?thesis
    proof (cases b)
      case (Leaf y)
      with na less.prems robdd_nonconst[of n a y] show ?thesis by auto
    next
      case nb: (Node w l' h')
      have ra: "robdd_from n (Node v l h)" and rb: "robdd_from m (Node w l' h')"
        using less.prems na nb by auto
      have eq: "\<And>s. sat (Node v l h) s = sat (Node w l' h') s"
        using less.prems na nb by auto
      have rl: "robdd_from (Suc v) l" and rh: "robdd_from (Suc v) h" and lh: "l \<noteq> h"
        using ra by auto
      have rl': "robdd_from (Suc w) l'" and rh': "robdd_from (Suc w) h'" and lh': "l' \<noteq> h'"
        using rb by auto
      consider "v < w" | "w < v" | "v = w" by linarith
      then show ?thesis
      proof cases
        case 1
        have "sat l s = sat h s" for s
        proof -
          have "sat l s = sat (Node v l h) (s(v := False))" by (rule sat_low[OF ra])
          also have "\<dots> = sat (Node w l' h') (s(v := False))" by (rule eq)
          also have "\<dots> = sat (Node w l' h') (s(v := True))"
            by (rule sat_indep[of w]) (use rb 1 in auto)
          also have "\<dots> = sat (Node v l h) (s(v := True))" by (rule eq[symmetric])
          also have "\<dots> = sat h s" by (rule sat_high[OF ra, symmetric])
          finally show ?thesis .
        qed
        moreover have "size l + size h < k" using less.prems(1) na by simp
        ultimately have "l = h" using less.IH[OF _ refl rl rh] by blast
        with lh show ?thesis by simp
      next
        case 2
        have "sat l' s = sat h' s" for s
        proof -
          have "sat l' s = sat (Node w l' h') (s(w := False))" by (rule sat_low[OF rb])
          also have "\<dots> = sat (Node v l h) (s(w := False))" by (rule eq[symmetric])
          also have "\<dots> = sat (Node v l h) (s(w := True))"
            by (rule sat_indep[of v]) (use ra 2 in auto)
          also have "\<dots> = sat (Node w l' h') (s(w := True))" by (rule eq)
          also have "\<dots> = sat h' s" by (rule sat_high[OF rb, symmetric])
          finally show ?thesis .
        qed
        moreover have "size l' + size h' < k" using less.prems(1) nb by simp
        ultimately have "l' = h'" using less.IH[OF _ refl rl' rh'] by blast
        with lh' show ?thesis by simp
      next
        case 3
        have "sat l s = sat l' s" for s
        proof -
          have "sat l s = sat (Node v l h) (s(v := False))" by (rule sat_low[OF ra])
          also have "\<dots> = sat (Node w l' h') (s(v := False))" by (rule eq)
          also have "\<dots> = sat l' s" using sat_low[OF rb, of s] 3 by simp
          finally show ?thesis .
        qed
        moreover have "size l + size l' < k" using less.prems(1) na nb by simp
        ultimately have l: "l = l'" using less.IH[OF _ refl rl rl'] by blast
        have "sat h s = sat h' s" for s
        proof -
          have "sat h s = sat (Node v l h) (s(v := True))" by (rule sat_high[OF ra])
          also have "\<dots> = sat (Node w l' h') (s(v := True))" by (rule eq)
          also have "\<dots> = sat h' s" using sat_high[OF rb, of s] 3 by simp
          finally show ?thesis .
        qed
        moreover have "size h + size h' < k" using less.prems(1) na nb by simp
        ultimately have h: "h = h'" using less.IH[OF _ refl rh rh'] by blast
        show ?thesis using na nb 3 l h by simp
      qed
    qed
  qed
qed

lemma robdd_canonical:
  "robdd_from n a \<Longrightarrow> robdd_from m b \<Longrightarrow> (\<And>s. sat a s = sat b s) \<Longrightarrow> a = b"
  using robdd_canonical_aux[OF refl, where a = a and b = b and n = n and m = m] by blast

lemma sat_exist:
  "robdd_from n b \<Longrightarrow>
   sat (bdd_exist vs b) s = (\<exists>s'. (\<forall>v. v \<notin> vs \<longrightarrow> s' v = s v) \<and> sat b s')"
proof (induction b arbitrary: n)
  case (Leaf x)
  show ?case by auto
next
  case (Node v l h)
  then have rl: "robdd_from (Suc v) l" and rh: "robdd_from (Suc v) h" by auto
  note il = Node.IH(1)[OF rl] and ih = Node.IH(2)[OF rh]
  show ?case
  proof (cases "v \<in> vs")
    case True
    have "(\<exists>s'. (\<forall>u. u \<notin> vs \<longrightarrow> s' u = s u) \<and> sat (Node v l h) s') \<longleftrightarrow>
          (\<exists>s'. (\<forall>u. u \<notin> vs \<longrightarrow> s' u = s u) \<and> sat l s') \<or> (\<exists>s'. (\<forall>u. u \<notin> vs \<longrightarrow> s' u = s u) \<and> sat h s')"
      (is "?L \<longleftrightarrow> ?A \<or> ?B")
    proof
      assume ?L then show "?A \<or> ?B" by (auto split: if_splits)
    next
      assume "?A \<or> ?B"
      then show ?L
      proof
        assume ?A
        then obtain s' where s': "\<forall>u. u \<notin> vs \<longrightarrow> s' u = s u" "sat l s'" by blast
        have "sat l (s'(v := False)) = sat l s'" by (rule sat_indep[OF rl]) simp
        with s' True have "(\<forall>u. u \<notin> vs \<longrightarrow> (s'(v := False)) u = s u) \<and> sat (Node v l h) (s'(v := False))"
          by auto
        then show ?L by blast
      next
        assume ?B
        then obtain s' where s': "\<forall>u. u \<notin> vs \<longrightarrow> s' u = s u" "sat h s'" by blast
        have "sat h (s'(v := True)) = sat h s'" by (rule sat_indep[OF rh]) simp
        with s' True have "(\<forall>u. u \<notin> vs \<longrightarrow> (s'(v := True)) u = s u) \<and> sat (Node v l h) (s'(v := True))"
          by auto
        then show ?L by blast
      qed
    qed
    then show ?thesis using True il ih by simp
  next
    case False
    show ?thesis using False il ih by auto
  qed
qed

section \<open>Symbolic reachability (symbolic_bdd.py)\<close>

text \<open>
  \<^verbatim>\<open>(M >> i) & 1\<close>: bit \<open>i\<close> of a Python integer, as the integer 0 or 1.
\<close>

definition bit_at :: "int \<Rightarrow> nat \<Rightarrow> int" where
  "bit_at M i = (drop_bit i M) AND 1"

text \<open>
  \<^verbatim>\<open>build_reachability_bdd\<close> declares, for place \<open>i\<close> named \<open>p\<close>, the two variables
  \<^verbatim>\<open>v{i}_{sanitize(p)}\<close> and \<^verbatim>\<open>v{i}_{sanitize(p)}_next\<close>, in the order current 0, next 0,
  current 1, next 1, ... The names start with the place index, so they are pairwise
  distinct (lemma \<open>var_name_inj\<close>) and the manager gives them the levels 0, 1, 2, 3, ...
  in this order: the
  current variable of place \<open>i\<close> is level \<open>2 * i\<close>, its next variable level \<open>2 * i + 1\<close>.
  \<open>bdd_vars\<close> is the list of (current, next) pairs, \<open>rename_map\<close> the dictionary from
  each next variable to the diagram of its current variable.
\<close>

definition curr :: "nat \<Rightarrow> nat" where
  "curr i = 2 * i"

definition nxt :: "nat \<Rightarrow> nat" where
  "nxt i = 2 * i + 1"

definition bdd_vars :: "petri_net \<Rightarrow> (nat \<times> nat) list" where
  "bdd_vars net = map (\<lambda>i. (curr i, nxt i)) [0..<length (places net)]"

definition rename_map :: "(nat \<times> nat) list \<Rightarrow> (nat \<rightharpoonup> bdd)" where
  "rename_map bv = foldl (\<lambda>m (c, x). m(x \<mapsto> bdd_var c)) Map.empty bv"

text \<open>The initial state: the conjunction of one literal per place.\<close>

definition initial_bdd :: "int \<Rightarrow> (nat \<times> nat) list \<Rightarrow> bdd" where
  "initial_bdd M0 bv =
     foldl (\<lambda>R (idx, c, x).
              if bit_at M0 idx \<noteq> 0 then bdd_and R (bdd_var c)
              else bdd_and R (bdd_not (bdd_var c)))
       (Leaf True) (enumerate 0 bv)"

text \<open>
  The relation of one transition: the enabling conjunction, and one clause per place
  (1 to 0 for a preset-only place, 0 to 1 for a postset-only place, 1 to 1 for a place
  in both, unchanged otherwise).
\<close>

definition enabled_bdd :: "transition \<Rightarrow> (nat \<times> nat) list \<Rightarrow> bdd" where
  "enabled_bdd t bv =
     foldl (\<lambda>enabled (i, c, x).
              if bit_at (pre_mask t) i \<noteq> 0 then bdd_and enabled (bdd_var c) else enabled)
       (Leaf True) (enumerate 0 bv)"

definition clause :: "transition \<Rightarrow> nat \<Rightarrow> nat \<times> nat \<Rightarrow> bdd" where
  "clause t i cx =
     (let is_pre = bit_at (pre_mask t) i \<noteq> 0;
          is_post = bit_at (post_mask t) i \<noteq> 0;
          x = bdd_var (fst cx);
          xnext = bdd_var (snd cx)
      in if is_pre \<and> \<not> is_post then bdd_and x (bdd_not xnext)
         else if \<not> is_pre \<and> is_post then bdd_and (bdd_not x) xnext
         else if is_pre \<and> is_post then bdd_and x xnext
         else bdd_or (bdd_and x xnext) (bdd_and (bdd_not x) (bdd_not xnext)))"

definition relation_bdd :: "transition \<Rightarrow> (nat \<times> nat) list \<Rightarrow> bdd" where
  "relation_bdd t bv =
     foldl (\<lambda>relation (i, cx). bdd_and relation (clause t i cx)) (Leaf True) (enumerate 0 bv)"

definition trans_bdd :: "transition \<Rightarrow> (nat \<times> nat) list \<Rightarrow> bdd" where
  "trans_bdd t bv = bdd_and (enabled_bdd t bv) (relation_bdd t bv)"

text \<open>
  One pass of the \<^verbatim>\<open>for tr in trans_bdds\<close> loop (\<open>image_union\<close> is \<^verbatim>\<open>R_next\<close> after it),
  the union with \<open>R\<close>, and the \<^verbatim>\<open>while True\<close> loop, which leaves when the new diagram is
  the old one. The loop is a partial function: \<open>None\<close> stands for a run that never
  leaves it.
\<close>

definition image_union :: "nat set \<Rightarrow> (nat \<rightharpoonup> bdd) \<Rightarrow> bdd list \<Rightarrow> bdd \<Rightarrow> bdd" where
  "image_union curr_name_set rename trans_bdds R =
     foldl (\<lambda>R_next tr.
              let inter = bdd_and R tr
              in if inter = Leaf False then R_next
                 else bdd_or R_next (bdd_let rename (bdd_exist curr_name_set inter)))
       (Leaf False) trans_bdds"

definition fixpoint_step :: "nat set \<Rightarrow> (nat \<rightharpoonup> bdd) \<Rightarrow> bdd list \<Rightarrow> bdd \<Rightarrow> bdd" where
  "fixpoint_step curr_name_set rename trans_bdds R =
     bdd_or R (image_union curr_name_set rename trans_bdds R)"

partial_function (option) fixpoint_loop ::
  "nat set \<Rightarrow> (nat \<rightharpoonup> bdd) \<Rightarrow> bdd list \<Rightarrow> bdd \<Rightarrow> bdd option" where
  "fixpoint_loop curr_name_set rename trans_bdds R =
     (let R_new = fixpoint_step curr_name_set rename trans_bdds R
      in if R_new = R then Some R
         else fixpoint_loop curr_name_set rename trans_bdds R_new)"

declare fixpoint_loop.simps [code]

definition build_reachability_bdd :: "petri_net \<Rightarrow> (bdd \<times> nat list) option" where
  "build_reachability_bdd net =
     (let bv = bdd_vars net;
          rename = rename_map bv;
          R0 = initial_bdd (initial net) bv;
          trans_bdds = map (\<lambda>t. trans_bdd t bv) (transitions net);
          curr_names = map fst bv
      in map_option (\<lambda>R. (R, curr_names))
           (fixpoint_loop (set curr_names) rename trans_bdds R0))"

text \<open>
  \<^verbatim>\<open>is_marking_reachable_bdd(M, bdd, R, curr_vars)\<close>: substitute the constant of bit \<open>i\<close>
  of \<open>M\<close> for the \<open>i\<close>-th current variable and compare the result with the TRUE diagram.
\<close>

definition is_marking_reachable_bdd :: "int \<Rightarrow> bdd \<Rightarrow> nat list \<Rightarrow> bool" where
  "is_marking_reachable_bdd M R curr_vars =
     (let subst = foldl (\<lambda>m (i, var). m(var \<mapsto> (if bit_at M i = 1 then Leaf True else Leaf False)))
                    Map.empty (enumerate 0 curr_vars)
      in bdd_let subst R = Leaf True)"


subsection \<open>What the diagrams of symbolic_bdd.py denote\<close>

lemma bit_at_nonzero [simp]: "bit_at M i \<noteq> 0 \<longleftrightarrow> bit M i"
  by (simp add: bit_at_def and_one_eq bit_iff_odd_drop_bit mod_2_eq_odd)

lemma bit_at_one [simp]: "bit_at M i = 1 \<longleftrightarrow> bit M i"
  by (simp add: bit_at_def and_one_eq bit_iff_odd_drop_bit mod_2_eq_odd)

definition bvn :: "nat \<Rightarrow> (nat \<times> nat) list" where
  "bvn n = map (\<lambda>i. (curr i, nxt i)) [0..<n]"

lemma bdd_vars_bvn: "bdd_vars net = bvn (length (places net))"
  by (simp add: bdd_vars_def bvn_def)

lemma enumerate_bvn_Suc:
  "enumerate 0 (bvn (Suc n)) = enumerate 0 (bvn n) @ [(n, curr n, nxt n)]"
  by (simp add: bvn_def enumerate_append_eq)

lemma bvn_Suc: "bvn (Suc n) = bvn n @ [(curr n, nxt n)]"
  by (simp add: bvn_def)

lemma curr_nxt_simps [simp]:
  "curr i = curr j \<longleftrightarrow> i = j" "nxt i = nxt j \<longleftrightarrow> i = j" "curr i \<noteq> nxt j" "nxt i \<noteq> curr j"
  by (auto simp: curr_def nxt_def) presburger+

lemma curr_div2: "curr i div 2 = i" "nxt i div 2 = i" "even (curr i)" "odd (nxt i)"
  by (simp_all add: curr_def nxt_def)

lemma sat_initial_bdd:
  "sat (initial_bdd M0 (bvn n)) s \<longleftrightarrow> (\<forall>i<n. s (curr i) = bit M0 i)"
proof (induction n)
  case 0
  show ?case by (simp add: initial_bdd_def bvn_def)
next
  case (Suc n)
  have "initial_bdd M0 (bvn (Suc n)) =
    (if bit M0 n then bdd_and (initial_bdd M0 (bvn n)) (bdd_var (curr n))
     else bdd_and (initial_bdd M0 (bvn n)) (bdd_not (bdd_var (curr n))))"
    by (simp add: initial_bdd_def enumerate_bvn_Suc)
  then show ?case using Suc by (auto simp: less_Suc_eq)
qed

lemma robdd_initial_bdd: "robdd_from 0 (initial_bdd M0 (bvn n))"
proof (induction n)
  case 0
  show ?case by (simp add: initial_bdd_def bvn_def)
next
  case (Suc n)
  have "initial_bdd M0 (bvn (Suc n)) =
    (if bit M0 n then bdd_and (initial_bdd M0 (bvn n)) (bdd_var (curr n))
     else bdd_and (initial_bdd M0 (bvn n)) (bdd_not (bdd_var (curr n))))"
    by (simp add: initial_bdd_def enumerate_bvn_Suc)
  then show ?case using Suc
    by (auto intro!: robdd_from_and robdd_from_not robdd_from_var)
qed

lemma sat_enabled_bdd:
  "sat (enabled_bdd t (bvn n)) s \<longleftrightarrow> (\<forall>i<n. bit (pre_mask t) i \<longrightarrow> s (curr i))"
proof (induction n)
  case 0
  show ?case by (simp add: enabled_bdd_def bvn_def)
next
  case (Suc n)
  have "enabled_bdd t (bvn (Suc n)) =
    (if bit (pre_mask t) n then bdd_and (enabled_bdd t (bvn n)) (bdd_var (curr n))
     else enabled_bdd t (bvn n))"
    by (simp add: enabled_bdd_def enumerate_bvn_Suc)
  then show ?case using Suc by (auto simp: less_Suc_eq)
qed

lemma robdd_enabled_bdd: "robdd_from 0 (enabled_bdd t (bvn n))"
proof (induction n)
  case 0
  show ?case by (simp add: enabled_bdd_def bvn_def)
next
  case (Suc n)
  have "enabled_bdd t (bvn (Suc n)) =
    (if bit (pre_mask t) n then bdd_and (enabled_bdd t (bvn n)) (bdd_var (curr n))
     else enabled_bdd t (bvn n))"
    by (simp add: enabled_bdd_def enumerate_bvn_Suc)
  then show ?case using Suc
    by (auto intro!: robdd_from_and robdd_from_var)
qed

definition effect :: "bool \<Rightarrow> bool \<Rightarrow> bool \<Rightarrow> bool \<Rightarrow> bool" where
  "effect is_pre is_post x x' =
     (if is_pre \<and> \<not> is_post then x \<and> \<not> x'
      else if \<not> is_pre \<and> is_post then \<not> x \<and> x'
      else if is_pre \<and> is_post then x \<and> x'
      else x = x')"

lemma sat_clause:
  "sat (clause t i (c, x)) s = effect (bit (pre_mask t) i) (bit (post_mask t) i) (s c) (s x)"
  by (auto simp: clause_def effect_def Let_def)

lemma robdd_clause: "robdd_from 0 (clause t i cx)"
  by (auto simp: clause_def Let_def intro!: robdd_from_and robdd_from_or robdd_from_not robdd_from_var)

lemma sat_relation_bdd:
  "sat (relation_bdd t (bvn n)) s \<longleftrightarrow>
     (\<forall>i<n. effect (bit (pre_mask t) i) (bit (post_mask t) i) (s (curr i)) (s (nxt i)))"
proof (induction n)
  case 0
  show ?case by (simp add: relation_bdd_def bvn_def)
next
  case (Suc n)
  have "relation_bdd t (bvn (Suc n)) = bdd_and (relation_bdd t (bvn n)) (clause t n (curr n, nxt n))"
    by (simp add: relation_bdd_def enumerate_bvn_Suc)
  then show ?case using Suc by (auto simp: less_Suc_eq sat_clause)
qed

lemma robdd_relation_bdd: "robdd_from 0 (relation_bdd t (bvn n))"
proof (induction n)
  case 0
  show ?case by (simp add: relation_bdd_def bvn_def)
next
  case (Suc n)
  have "relation_bdd t (bvn (Suc n)) = bdd_and (relation_bdd t (bvn n)) (clause t n (curr n, nxt n))"
    by (simp add: relation_bdd_def enumerate_bvn_Suc)
  then show ?case using Suc by (auto intro!: robdd_from_and robdd_clause)
qed

lemma sat_trans_bdd:
  "sat (trans_bdd t (bvn n)) s \<longleftrightarrow>
     (\<forall>i<n. bit (pre_mask t) i \<longrightarrow> s (curr i)) \<and>
     (\<forall>i<n. effect (bit (pre_mask t) i) (bit (post_mask t) i) (s (curr i)) (s (nxt i)))"
  by (simp add: trans_bdd_def sat_enabled_bdd sat_relation_bdd)

lemma robdd_trans_bdd: "robdd_from 0 (trans_bdd t (bvn n))"
  by (simp add: trans_bdd_def robdd_from_and robdd_enabled_bdd robdd_relation_bdd)

lemma rename_map_bvn:
  "rename_map (bvn n) v = (if \<exists>i<n. v = nxt i then Some (bdd_var (v - 1)) else None)"
proof (induction n)
  case 0
  show ?case by (simp add: rename_map_def bvn_def)
next
  case (Suc n)
  have "rename_map (bvn (Suc n)) = (rename_map (bvn n))(nxt n \<mapsto> bdd_var (curr n))"
    by (simp add: rename_map_def bvn_Suc)
  then show ?case using Suc by (auto simp: less_Suc_eq curr_def nxt_def)
qed

lemma curr_names_bvn: "set (map fst (bvn n)) = curr ` {..<n}"
  by (auto simp: bvn_def)


definition enc :: "int \<Rightarrow> int \<Rightarrow> nat \<Rightarrow> bool" where
  "enc M M' v = (if even v then bit M (v div 2) else bit M' (v div 2))"

lemma enc_curr [simp]: "enc M M' (curr i) = bit M i"
  by (simp add: enc_def curr_div2)

lemma enc_nxt [simp]: "enc M M' (nxt i) = bit M' i"
  by (simp add: enc_def curr_div2)

fun marking_of :: "nat \<Rightarrow> (nat \<Rightarrow> bool) \<Rightarrow> int" where
  "marking_of 0 f = 0"
| "marking_of (Suc n) f = (if f n then set_bit n (marking_of n f) else marking_of n f)"

lemma bit_marking_of [simp]: "bit (marking_of n f) i \<longleftrightarrow> i < n \<and> f i"
  by (induction n) (auto simp: bit_set_bit_iff less_Suc_eq)

lemma take_bit_marking_of [simp]: "take_bit n (marking_of n f) = marking_of n f"
  by (rule bit_eqI) (auto simp: bit_take_bit_iff)

lemma take_bit_self_bit: "take_bit n M = M \<Longrightarrow> bit (M::int) i \<Longrightarrow> i < n"
  by (metis bit_take_bit_iff)

lemma marking_of_bits: "take_bit n M = M \<Longrightarrow> marking_of n (bit M) = M"
  by (rule bit_eqI) (auto dest: take_bit_self_bit)

definition curr_only :: "nat \<Rightarrow> bdd \<Rightarrow> bool" where
  "curr_only n R \<longleftrightarrow> (\<forall>s s'. (\<forall>i<n. s (curr i) = s' (curr i)) \<longrightarrow> sat R s = sat R s')"

definition markings :: "nat \<Rightarrow> bdd \<Rightarrow> int set" where
  "markings n R = {M. take_bit n M = M \<and> sat R (enc M 0)}"

definition sym_fire :: "nat \<Rightarrow> transition \<Rightarrow> int \<Rightarrow> int \<Rightarrow> bool" where
  "sym_fire n t M M' \<longleftrightarrow>
     (\<forall>i<n. bit (pre_mask t) i \<longrightarrow> bit M i) \<and>
     (\<forall>i<n. effect (bit (pre_mask t) i) (bit (post_mask t) i) (bit M i) (bit M' i))"

definition image :: "nat \<Rightarrow> bdd \<Rightarrow> bdd \<Rightarrow> bdd" where
  "image n R tr = bdd_let (rename_map (bvn n)) (bdd_exist (set (map fst (bvn n))) (bdd_and R tr))"

lemma robdd_rename_map: "rename_map (bvn n) v = Some g \<Longrightarrow> robdd_from 0 g"
  by (auto simp: rename_map_bvn robdd_from_var split: if_splits)

lemma robdd_image: "robdd_from 0 (image n R tr)"
  unfolding image_def by (rule robdd_let) (rule robdd_rename_map)

lemma sat_curr_only: "curr_only n R \<Longrightarrow> (\<And>i. i < n \<Longrightarrow> s (curr i) = s' (curr i)) \<Longrightarrow> sat R s = sat R s'"
  unfolding curr_only_def by blast


lemma curr_in_image [simp]: "curr i \<in> curr ` A \<longleftrightarrow> i \<in> A"
  by auto

lemma nxt_notin_image [simp]: "nxt i \<notin> curr ` A"
  by auto

lemma sr_nxt:
  "i < n \<Longrightarrow> (case rename_map (bvn n) (nxt i) of Some g \<Rightarrow> sat g s | None \<Rightarrow> s (nxt i)) = s (curr i)"
proof -
  assume a: "i < n"
  then have "rename_map (bvn n) (nxt i) = Some (bdd_var (nxt i - 1))"
    unfolding rename_map_bvn by auto
  moreover have "nxt i - 1 = curr i" by (simp add: nxt_def curr_def)
  ultimately show ?thesis by simp
qed

lemma sat_image_raw:
  assumes R: "robdd_from 0 R" and that: "robdd_from 0 tr"
  shows "sat (image n R tr) s \<longleftrightarrow>
     (\<exists>s'. (\<forall>v. v \<notin> curr ` {..<n} \<longrightarrow>
                s' v = (case rename_map (bvn n) v of Some g \<Rightarrow> sat g s | None \<Rightarrow> s v)) \<and>
           sat R s' \<and> sat tr s')"
proof -
  have rb: "robdd_from 0 (bdd_and R tr)"
    by (rule robdd_from_and[OF R that])
  show ?thesis
    unfolding image_def sat_let sat_exist[OF rb] curr_names_bvn sat_and ..
qed


lemma sat_image:
  assumes R: "robdd_from 0 R" and co: "curr_only n R"
  shows "sat (image n R (trans_bdd t (bvn n))) s \<longleftrightarrow>
         (\<exists>M. take_bit n M = M \<and> sat R (enc M 0) \<and> sym_fire n t M (marking_of n (\<lambda>i. s (curr i))))"
    (is "?L \<longleftrightarrow> ?Rhs")
proof
  let ?tr = "trans_bdd t (bvn n)"
  let ?sr = "\<lambda>v. case rename_map (bvn n) v of Some g \<Rightarrow> sat g s | None \<Rightarrow> s v"
  let ?M' = "marking_of n (\<lambda>i. s (curr i))"
  note raw = sat_image_raw[OF R robdd_trans_bdd, where n = n and s = s and t1 = t and n1 = n]
  {
    assume ?L
    then obtain s' where s1: "\<forall>v. v \<notin> curr ` {..<n} \<longrightarrow> s' v = ?sr v"
      and s2: "sat R s'" and s3: "sat ?tr s'"
      unfolding raw by blast
    let ?M = "marking_of n (\<lambda>i. s' (curr i))"
    have nx: "s' (nxt i) = s (curr i)" if "i < n" for i
    proof -
      have "s' (nxt i) = ?sr (nxt i)" using s1 nxt_notin_image by blast
      then show ?thesis using sr_nxt[OF that, where s = s] by simp
    qed
    have "sat R (enc ?M 0) = sat R s'"
      by (rule sat_curr_only[OF co]) simp
    then have a: "sat R (enc ?M 0)" using s2 by simp
    have en: "\<forall>i<n. bit (pre_mask t) i \<longrightarrow> s' (curr i)"
      and ef: "\<forall>i<n. effect (bit (pre_mask t) i) (bit (post_mask t) i) (s' (curr i)) (s' (nxt i))"
      using s3 unfolding sat_trans_bdd by blast+
    have b: "sym_fire n t ?M ?M'"
      unfolding sym_fire_def
    proof (intro conjI allI impI)
      fix i assume "i < n" "bit (pre_mask t) i"
      then show "bit ?M i" using en by simp
    next
      fix i assume i: "i < n"
      then have "effect (bit (pre_mask t) i) (bit (post_mask t) i) (s' (curr i)) (s (curr i))"
        using ef nx by fastforce
      then show "effect (bit (pre_mask t) i) (bit (post_mask t) i) (bit ?M i) (bit ?M' i)"
        using i by simp
    qed
    have "take_bit n ?M = ?M" by simp
    with a b show ?Rhs by blast
  }
  {
    assume ?Rhs
    then obtain M where M1: "take_bit n M = M" and M2: "sat R (enc M 0)"
      and M3: "sym_fire n t M ?M'" by blast
    define s' where "s' = (\<lambda>v. if v \<in> curr ` {..<n} then bit M (v div 2) else ?sr v)"
    have c: "s' (curr i) = bit M i" if "i < n" for i
      using that by (simp add: s'_def curr_div2)
    have x: "s' (nxt i) = s (curr i)" if "i < n" for i
      using sr_nxt[OF that, where s = s] by (simp add: s'_def)
    have o: "\<forall>v. v \<notin> curr ` {..<n} \<longrightarrow> s' v = ?sr v"
      by (simp add: s'_def)
    have "sat R s' = sat R (enc M 0)"
      by (rule sat_curr_only[OF co]) (simp add: c)
    then have a: "sat R s'" using M2 by simp
    have b: "sat ?tr s'"
      unfolding sat_trans_bdd
    proof (intro conjI allI impI)
      fix i assume "i < n" "bit (pre_mask t) i"
      then show "s' (curr i)" using M3 c by (simp add: sym_fire_def)
    next
      fix i assume i: "i < n"
      then have "effect (bit (pre_mask t) i) (bit (post_mask t) i) (bit M i) (bit ?M' i)"
        using M3 by (simp add: sym_fire_def)
      then show "effect (bit (pre_mask t) i) (bit (post_mask t) i) (s' (curr i)) (s' (nxt i))"
        using i c x by simp
    qed
    show ?L unfolding raw using o a b by blast
  }
qed

lemma image_union_snoc:
  "image_union cs rm (trs @ [tr]) R =
     (let inter = bdd_and R tr
      in if inter = Leaf False then image_union cs rm trs R
         else bdd_or (image_union cs rm trs R) (bdd_let rm (bdd_exist cs inter)))"
  by (simp add: image_union_def Let_def)

lemma sat_image_union:
  "sat (image_union (set (map fst (bvn n))) (rename_map (bvn n)) trs R) s \<longleftrightarrow>
     (\<exists>tr\<in>set trs. sat (image n R tr) s)"
proof (induction trs rule: rev_induct)
  case Nil
  show ?case by (simp add: image_union_def)
next
  case (snoc tr trs)
  have "bdd_and R tr = Leaf False \<Longrightarrow> \<not> sat (image n R tr) s"
    by (simp add: image_def)
  then show ?case using snoc
    by (auto simp: image_union_snoc Let_def image_def)
qed

lemma robdd_image_union:
  "robdd_from 0 (image_union (set (map fst (bvn n))) (rename_map (bvn n)) trs R)"
proof (induction trs rule: rev_induct)
  case Nil
  show ?case by (simp add: image_union_def)
next
  case (snoc tr trs)
  have "robdd_from 0 (image n R tr)" by (rule robdd_image)
  then show ?case using snoc
    by (auto simp: image_union_snoc Let_def image_def intro!: robdd_from_or)
qed

definition sym_step :: "nat \<Rightarrow> transition list \<Rightarrow> bdd \<Rightarrow> bdd" where
  "sym_step n ts R =
     fixpoint_step (set (map fst (bvn n))) (rename_map (bvn n)) (map (\<lambda>t. trans_bdd t (bvn n)) ts) R"

lemma robdd_sym_step: "robdd_from 0 R \<Longrightarrow> robdd_from 0 (sym_step n ts R)"
  unfolding sym_step_def fixpoint_step_def by (intro robdd_from_or robdd_image_union)

lemma sat_sym_step:
  assumes "robdd_from 0 R" "curr_only n R"
  shows "sat (sym_step n ts R) s \<longleftrightarrow>
     sat R s \<or> (\<exists>t\<in>set ts. \<exists>M. take_bit n M = M \<and> sat R (enc M 0) \<and>
                   sym_fire n t M (marking_of n (\<lambda>i. s (curr i))))"
  unfolding sym_step_def fixpoint_step_def sat_or sat_image_union
  by (auto simp: sat_image[OF assms])

lemma marking_of_cong: "(\<And>i. i < n \<Longrightarrow> f i = g i) \<Longrightarrow> marking_of n f = marking_of n g"
  by (rule bit_eqI) auto

lemma curr_only_sym_step:
  assumes "robdd_from 0 R" "curr_only n R"
  shows "curr_only n (sym_step n ts R)"
  unfolding curr_only_def
proof (intro allI impI)
  fix s s' :: "nat \<Rightarrow> bool"
  assume a: "\<forall>i<n. s (curr i) = s' (curr i)"
  have "marking_of n (\<lambda>i. s (curr i)) = marking_of n (\<lambda>i. s' (curr i))"
    by (rule marking_of_cong) (use a in simp)
  moreover have "sat R s = sat R s'" using assms(2) a by (simp add: curr_only_def)
  ultimately show "sat (sym_step n ts R) s = sat (sym_step n ts R) s'"
    by (simp add: sat_sym_step[OF assms])
qed

lemma curr_only_initial_bdd: "curr_only n (initial_bdd M0 (bvn n))"
  by (simp add: curr_only_def sat_initial_bdd)

lemma markings_sym_step:
  assumes "robdd_from 0 R" "curr_only n R"
  shows "markings n (sym_step n ts R) =
           markings n R \<union> {M'. take_bit n M' = M' \<and> (\<exists>M\<in>markings n R. \<exists>t\<in>set ts. sym_fire n t M M')}"
proof -
  have "marking_of n (\<lambda>i. enc M' 0 (curr i)) = M'" if "take_bit n M' = M'" for M'
    using marking_of_bits[OF that] by simp
  then show ?thesis
    by (auto simp: markings_def sat_sym_step[OF assms])
qed

lemma markings_initial_bdd: "markings n (initial_bdd M0 (bvn n)) = {take_bit n M0}"
proof -
  have "take_bit n M = M \<and> (\<forall>i<n. bit M i = bit M0 i) \<longleftrightarrow> M = take_bit n M0" for M
  proof
    assume a: "take_bit n M = M \<and> (\<forall>i<n. bit M i = bit M0 i)"
    have "take_bit n M = take_bit n M0"
      by (rule bit_eqI) (use a in \<open>auto simp: bit_take_bit_iff dest: take_bit_self_bit\<close>)
    with a show "M = take_bit n M0" by simp
  next
    assume "M = take_bit n M0"
    then show "take_bit n M = M \<and> (\<forall>i<n. bit M i = bit M0 i)"
      by (simp add: bit_take_bit_iff)
  qed
  then show ?thesis by (auto simp: markings_def sat_initial_bdd)
qed

section \<open>The fixed point: termination and growth\<close>

text \<open>
  \<open>reach_step net\<close> is one image-and-union step with the relations of \<open>net\<close>, as one turn
  of the loop of \<^verbatim>\<open>build_reachability_bdd\<close> computes it, and \<open>iterate net k\<close> is the value
  of \<^verbatim>\<open>R\<close> after \<open>k\<close> turns.
\<close>

definition reach_step :: "petri_net \<Rightarrow> bdd \<Rightarrow> bdd" where
  "reach_step net R =
     (let bv = bdd_vars net
      in fixpoint_step (set (map fst bv)) (rename_map bv)
           (map (\<lambda>t. trans_bdd t bv) (transitions net)) R)"

definition iterate :: "petri_net \<Rightarrow> nat \<Rightarrow> bdd" where
  "iterate net k = (reach_step net ^^ k) (initial_bdd (initial net) (bdd_vars net))"

lemma reach_step_sym_step: "reach_step net = sym_step (length (places net)) (transitions net)"
  by (rule ext) (simp add: reach_step_def sym_step_def bdd_vars_bvn Let_def del: set_map)

lemma nbit_set: "{M::int. take_bit n M = M} = {0..<2 ^ n}"
  by (auto simp: take_bit_int_eq_self_iff)

lemma finite_markings: "finite (markings n R)"
proof -
  have "markings n R \<subseteq> {0..<2 ^ n}" using nbit_set[of n] by (auto simp: markings_def)
  then show ?thesis by (rule finite_subset) simp
qed

lemma card_markings: "card (markings n R) \<le> 2 ^ n"
proof -
  have "markings n R \<subseteq> {0..<2 ^ n}" using nbit_set[of n] by (auto simp: markings_def)
  then have "card (markings n R) \<le> card {0..<(2::int) ^ n}" by (intro card_mono) simp_all
  moreover have "nat (2 ^ n) = 2 ^ n" by (simp add: nat_power_eq)
  ultimately show ?thesis by simp
qed

lemma sat_sym_step_mono: "sat R s \<Longrightarrow> sat (sym_step n ts R) s"
  by (simp add: sym_step_def fixpoint_step_def)

lemma markings_grow:
  assumes R: "robdd_from 0 R" and co: "curr_only n R" and ne: "sym_step n ts R \<noteq> R"
  shows "markings n R \<subset> markings n (sym_step n ts R)"
proof -
  let ?S = "sym_step n ts R"
  have rS: "robdd_from 0 ?S" by (rule robdd_sym_step[OF R])
  have cS: "curr_only n ?S" by (rule curr_only_sym_step[OF R co])
  have "\<exists>s. sat ?S s \<noteq> sat R s"
  proof (rule ccontr)
    assume "\<not> (\<exists>s. sat ?S s \<noteq> sat R s)"
    then have "\<And>s. sat ?S s = sat R s" by blast
    then have "?S = R" by (rule robdd_canonical[OF rS R])
    with ne show False by simp
  qed
  then obtain s where s: "sat ?S s" "\<not> sat R s" using sat_sym_step_mono by blast
  let ?M = "marking_of n (\<lambda>i. s (curr i))"
  have "sat ?S (enc ?M 0) = sat ?S s" by (rule sat_curr_only[OF cS]) simp
  moreover have "sat R (enc ?M 0) = sat R s" by (rule sat_curr_only[OF co]) simp
  ultimately have "?M \<in> markings n ?S" "?M \<notin> markings n R"
    using s by (simp_all add: markings_def)
  moreover have "markings n R \<subseteq> markings n ?S"
    by (auto simp: markings_def sat_sym_step_mono)
  ultimately show ?thesis by blast
qed

lemma fixpoint_loop_unfold:
  "fixpoint_loop (set (map fst (bvn n))) (rename_map (bvn n)) (map (\<lambda>t. trans_bdd t (bvn n)) ts) R =
     (if sym_step n ts R = R then Some R
      else fixpoint_loop (set (map fst (bvn n))) (rename_map (bvn n))
             (map (\<lambda>t. trans_bdd t (bvn n)) ts) (sym_step n ts R))"
  by (subst fixpoint_loop.simps) (simp add: sym_step_def Let_def del: set_map)

lemma fixpoint_loop_terminates:
  assumes "robdd_from 0 R" "curr_only n R"
  shows "\<exists>k. fixpoint_loop (set (map fst (bvn n))) (rename_map (bvn n))
              (map (\<lambda>t. trans_bdd t (bvn n)) ts) R = Some ((sym_step n ts ^^ k) R) \<and>
            sym_step n ts ((sym_step n ts ^^ k) R) = (sym_step n ts ^^ k) R \<and>
            (\<forall>j<k. sym_step n ts ((sym_step n ts ^^ j) R) \<noteq> (sym_step n ts ^^ j) R) \<and>
            k + card (markings n R) \<le> 2 ^ n"
  using assms
proof (induction "2 ^ n - card (markings n R)" arbitrary: R rule: less_induct)
  case less
  let ?S = "sym_step n ts R"
  show ?case
  proof (cases "?S = R")
    case True
    have "fixpoint_loop (set (map fst (bvn n))) (rename_map (bvn n))
              (map (\<lambda>t. trans_bdd t (bvn n)) ts) R = Some ((sym_step n ts ^^ 0) R)"
      using True by (subst fixpoint_loop_unfold) simp
    moreover have "sym_step n ts ((sym_step n ts ^^ 0) R) = (sym_step n ts ^^ 0) R"
      using True by simp
    moreover have "0 + card (markings n R) \<le> 2 ^ n" using card_markings[of n R] by simp
    ultimately show ?thesis by (intro exI[of _ 0]) simp
  next
    case False
    have rS: "robdd_from 0 ?S" by (rule robdd_sym_step[OF less.prems(1)])
    have cS: "curr_only n ?S" by (rule curr_only_sym_step[OF less.prems])
    have gr: "markings n R \<subset> markings n ?S" by (rule markings_grow[OF less.prems False])
    have lt: "card (markings n R) < card (markings n ?S)"
      by (rule psubset_card_mono[OF finite_markings gr])
    have "2 ^ n - card (markings n ?S) < 2 ^ n - card (markings n R)"
      using lt card_markings[of n ?S] by linarith
    from less.hyps[OF this rS cS] obtain k where
      k1: "fixpoint_loop (set (map fst (bvn n))) (rename_map (bvn n))
              (map (\<lambda>t. trans_bdd t (bvn n)) ts) ?S = Some ((sym_step n ts ^^ k) ?S)"
      and k2: "sym_step n ts ((sym_step n ts ^^ k) ?S) = (sym_step n ts ^^ k) ?S"
      and k3: "\<forall>j<k. sym_step n ts ((sym_step n ts ^^ j) ?S) \<noteq> (sym_step n ts ^^ j) ?S"
      and k4: "k + card (markings n ?S) \<le> 2 ^ n"
      by blast
    have shift: "(sym_step n ts ^^ j) ?S = (sym_step n ts ^^ Suc j) R" for j
      by (simp add: funpow_swap1)
    have a: "fixpoint_loop (set (map fst (bvn n))) (rename_map (bvn n))
              (map (\<lambda>t. trans_bdd t (bvn n)) ts) R = Some ((sym_step n ts ^^ Suc k) R)"
      using False k1 unfolding shift by (subst fixpoint_loop_unfold) simp
    have b: "sym_step n ts ((sym_step n ts ^^ Suc k) R) = (sym_step n ts ^^ Suc k) R"
      using k2 unfolding shift .
    have c: "\<forall>j<Suc k. sym_step n ts ((sym_step n ts ^^ j) R) \<noteq> (sym_step n ts ^^ j) R"
    proof (intro allI impI)
      fix j assume j: "j < Suc k"
      show "sym_step n ts ((sym_step n ts ^^ j) R) \<noteq> (sym_step n ts ^^ j) R"
      proof (cases j)
        case 0
        then show ?thesis using False by simp
      next
        case (Suc i)
        then have "i < k" using j by simp
        then show ?thesis using k3 Suc unfolding shift by blast
      qed
    qed
    have d: "Suc k + card (markings n R) \<le> 2 ^ n" using k4 lt by linarith
    show ?thesis using a b c d by blast
  qed
qed


text \<open>A net to run the definitions on: two places, a transition from the first to the second, a token on the first.\<close>

definition net0 :: petri_net where
  "net0 = \<lparr>places = [''p0'', ''p1''], place_index = [''p0'' \<mapsto> 0, ''p1'' \<mapsto> 1],
     transitions = [\<lparr>tid = ''t'', tname = ''t'', pre_mask = 1, post_mask = 2\<rparr>], initial = 1\<rparr>"

lemma build_net0:
  "build_reachability_bdd net0 =
     Some (Node 0 (Node 2 (Leaf False) (Leaf True)) (Node 2 (Leaf True) (Leaf False)), [0, 2])"
  by code_simp

lemma subst_cong:
  "(\<And>i. k \<le> i \<Longrightarrow> i < k + length xs \<Longrightarrow> bit M i = bit M' i) \<Longrightarrow>
   foldl (\<lambda>m (i, var). m(var \<mapsto> (if bit_at M i = 1 then Leaf True else Leaf False))) m0 (enumerate k xs) =
   foldl (\<lambda>m (i, var). m(var \<mapsto> (if bit_at M' i = 1 then Leaf True else Leaf False))) m0 (enumerate k xs)"
proof (induction xs arbitrary: k m0)
  case Nil
  show ?case by simp
next
  case (Cons x xs)
  have "bit M k = bit M' k" using Cons.prems[of k] by simp
  moreover have "\<And>i. Suc k \<le> i \<Longrightarrow> i < Suc k + length xs \<Longrightarrow> bit M i = bit M' i"
    using Cons.prems by simp
  ultimately show ?case using Cons.IH[of "Suc k"] by simp
qed

text \<open>
  C10. \<^verbatim>\<open>is_marking_reachable_bdd\<close> reads \<open>M\<close> only at the bit positions below the number
  of current variables: two integers that agree on these bits get the same answer, for
  every diagram \<open>R\<close>.
\<close>

theorem is_marking_reachable_bdd_low_bits:
  assumes "\<forall>i<length curr_vars. bit M i = bit M' i"
  shows "is_marking_reachable_bdd M R curr_vars = is_marking_reachable_bdd M' R curr_vars"
proof -
  have "foldl (\<lambda>m (i, var). m(var \<mapsto> (if bit_at M i = 1 then Leaf True else Leaf False)))
          Map.empty (enumerate 0 curr_vars) =
        foldl (\<lambda>m (i, var). m(var \<mapsto> (if bit_at M' i = 1 then Leaf True else Leaf False)))
          Map.empty (enumerate 0 curr_vars)"
    by (rule subst_cong) (use assms in simp)
  then show ?thesis by (simp add: is_marking_reachable_bdd_def)
qed




text \<open>
  The markings 1 and 5 agree on bits 0 and 1; both are accepted by the diagram of
  \<open>net0\<close>, over its two current variables.
\<close>

theorem is_marking_reachable_bdd_low_bits_witness:
  "is_marking_reachable_bdd 1 (Node 0 (Node 2 (Leaf False) (Leaf True)) (Node 2 (Leaf True) (Leaf False))) [0, 2] =
   is_marking_reachable_bdd 5 (Node 0 (Node 2 (Leaf False) (Leaf True)) (Node 2 (Leaf True) (Leaf False))) [0, 2] \<and>
   is_marking_reachable_bdd 5 (Node 0 (Node 2 (Leaf False) (Leaf True)) (Node 2 (Leaf True) (Leaf False))) [0, 2]"
proof -
  let ?R = "Node 0 (Node 2 (Leaf False) (Leaf True)) (Node 2 (Leaf True) (Leaf False))"
  have h: "\<forall>i<length [0::nat, 2]. bit (1::int) i = bit (5::int) i"
    by (auto simp: less_Suc_eq numeral_2_eq_2 bit_Suc)
  have a: "is_marking_reachable_bdd 1 ?R [0, 2] = is_marking_reachable_bdd 5 ?R [0, 2]"
    by (rule is_marking_reachable_bdd_low_bits[OF h])
  have b: "is_marking_reachable_bdd 5 ?R [0, 2]" by code_simp
  show ?thesis using a b by blast
qed

lemma iterate_funpow: "iterate net k = (sym_step (length (places net)) (transitions net) ^^ k)
     (initial_bdd (initial net) (bvn (length (places net))))"
  by (simp add: iterate_def reach_step_sym_step bdd_vars_bvn)

lemma robdd_iterate: "robdd_from 0 (iterate net k)"
  by (induction k) (simp_all add: iterate_funpow robdd_initial_bdd robdd_sym_step)

lemma curr_only_iterate: "curr_only (length (places net)) (iterate net k)"
proof (induction k)
  case 0
  show ?case by (simp add: iterate_funpow curr_only_initial_bdd)
next
  case (Suc k)
  have "iterate net (Suc k) = sym_step (length (places net)) (transitions net) (iterate net k)"
    by (simp add: iterate_funpow)
  then show ?case using curr_only_sym_step[OF robdd_iterate Suc] by simp
qed

lemma iterate_Suc: "iterate net (Suc k) = reach_step net (iterate net k)"
  by (simp add: iterate_def)

lemma sat_iterate_mono: "sat (iterate net k) s \<Longrightarrow> sat (iterate net (Suc k)) s"
  by (simp add: iterate_Suc reach_step_sym_step sat_sym_step_mono)

lemma iterate_stable:
  "reach_step net (iterate net k) = iterate net k \<Longrightarrow> k \<le> j \<Longrightarrow> iterate net j = iterate net k"
proof (induction j)
  case 0
  then show ?case by simp
next
  case (Suc j)
  show ?case
  proof (cases "k = Suc j")
    case True
    then show ?thesis by simp
  next
    case False
    then have "k \<le> j" using Suc.prems by simp
    then have "iterate net j = iterate net k" using Suc by simp
    then show ?thesis using Suc.prems(1) by (simp add: iterate_Suc)
  qed
qed

lemma build_reachability_bdd_iterate:
  "\<exists>k. build_reachability_bdd net = Some (iterate net k, map fst (bdd_vars net)) \<and>
       reach_step net (iterate net k) = iterate net k \<and>
       (\<forall>j<k. reach_step net (iterate net j) \<noteq> iterate net j) \<and>
       k < 2 ^ length (places net)"
proof -
  let ?n = "length (places net)"
  let ?R0 = "initial_bdd (initial net) (bvn ?n)"
  have r0: "robdd_from 0 ?R0" by (rule robdd_initial_bdd)
  have c0: "curr_only ?n ?R0" by (rule curr_only_initial_bdd)
  from fixpoint_loop_terminates[OF r0 c0, where ts = "transitions net"]
  obtain k where
    k1: "fixpoint_loop (set (map fst (bvn ?n))) (rename_map (bvn ?n))
              (map (\<lambda>t. trans_bdd t (bvn ?n)) (transitions net)) ?R0 =
           Some ((sym_step ?n (transitions net) ^^ k) ?R0)"
    and k2: "sym_step ?n (transitions net) ((sym_step ?n (transitions net) ^^ k) ?R0) =
               (sym_step ?n (transitions net) ^^ k) ?R0"
    and k3: "\<forall>j<k. sym_step ?n (transitions net) ((sym_step ?n (transitions net) ^^ j) ?R0) \<noteq>
               (sym_step ?n (transitions net) ^^ j) ?R0"
    and k4: "k + card (markings ?n ?R0) \<le> 2 ^ ?n"
    by blast
  have a: "build_reachability_bdd net = Some (iterate net k, map fst (bdd_vars net))"
    using k1 by (simp add: build_reachability_bdd_def Let_def bdd_vars_bvn iterate_funpow del: set_map)
  have b: "reach_step net (iterate net k) = iterate net k"
    using k2 by (simp add: reach_step_sym_step iterate_funpow)
  have c: "\<forall>j<k. reach_step net (iterate net j) \<noteq> iterate net j"
    using k3 by (simp add: reach_step_sym_step iterate_funpow)
  have "card (markings ?n ?R0) = 1" by (simp add: markings_initial_bdd)
  then have d: "k < 2 ^ ?n" using k4 by simp
  show ?thesis using a b c d by blast
qed

text \<open>
  C6. The fixed-point loop of \<^verbatim>\<open>build_reachability_bdd\<close> terminates for every net. It
  returns the iterate \<open>R\<close> of some turn \<open>k\<close>, the first one that one more image-and-union
  step leaves identical; \<open>k\<close> is below \<open>2 ^ n\<close> for \<open>n\<close> places, because the markings of an
  iterate are among the \<open>2 ^ n\<close> bit vectors over the places and grow from one turn to the
  next.
\<close>

theorem build_reachability_bdd_terminates:
  "\<exists>R k. build_reachability_bdd net = Some (R, map fst (bdd_vars net)) \<and>
         R = iterate net k \<and>
         reach_step net R = R \<and>
         (\<forall>j<k. reach_step net (iterate net j) \<noteq> iterate net j) \<and>
         k < 2 ^ length (places net) \<and>
         card (markings (length (places net)) R) \<le> 2 ^ length (places net) \<and>
         (\<forall>j. markings (length (places net)) (iterate net j) \<subseteq>
               markings (length (places net)) (iterate net (Suc j)))"
proof -
  obtain k where k: "build_reachability_bdd net = Some (iterate net k, map fst (bdd_vars net))"
      "reach_step net (iterate net k) = iterate net k"
      "\<forall>j<k. reach_step net (iterate net j) \<noteq> iterate net j"
      "k < 2 ^ length (places net)"
    using build_reachability_bdd_iterate by blast
  have m: "\<forall>j. markings (length (places net)) (iterate net j) \<subseteq>
               markings (length (places net)) (iterate net (Suc j))"
    by (auto simp: markings_def sat_iterate_mono)
  show ?thesis using k m card_markings by blast
qed

text \<open>
  C7. Across the iterations of \<^verbatim>\<open>build_reachability_bdd\<close> the iterate only grows: every
  assignment (so every bit vector) that satisfies one iterate satisfies the next. Once a
  step leaves the iterate identical, every later step does, and the loop returns that
  iterate.
\<close>

theorem iterate_monotone:
  "(\<forall>k s. sat (iterate net k) s \<longrightarrow> sat (iterate net (Suc k)) s) \<and>
   (\<forall>k. markings (length (places net)) (iterate net k) \<subseteq>
         markings (length (places net)) (iterate net (Suc k))) \<and>
   (\<forall>k. reach_step net (iterate net k) = iterate net k \<longrightarrow> (\<forall>j\<ge>k. iterate net j = iterate net k)) \<and>
   (\<exists>k. build_reachability_bdd net = Some (iterate net k, map fst (bdd_vars net)) \<and>
        (\<forall>j\<ge>k. iterate net j = iterate net k))"
proof -
  have a: "\<forall>k s. sat (iterate net k) s \<longrightarrow> sat (iterate net (Suc k)) s"
    by (simp add: sat_iterate_mono)
  have b: "\<forall>k. markings (length (places net)) (iterate net k) \<subseteq>
         markings (length (places net)) (iterate net (Suc k))"
    by (auto simp: markings_def sat_iterate_mono)
  have c: "\<forall>k. reach_step net (iterate net k) = iterate net k \<longrightarrow> (\<forall>j\<ge>k. iterate net j = iterate net k)"
    using iterate_stable by blast
  obtain k where k: "build_reachability_bdd net = Some (iterate net k, map fst (bdd_vars net))"
      "reach_step net (iterate net k) = iterate net k"
    using build_reachability_bdd_iterate by blast
  then have d: "\<exists>k. build_reachability_bdd net = Some (iterate net k, map fst (bdd_vars net)) \<and>
        (\<forall>j\<ge>k. iterate net j = iterate net k)"
    using c by blast
  show ?thesis using a b c d by blast
qed


text \<open>On \<open>net0\<close> the loop returns the diagram of the markings 1 and 2, a fixed point of the step.\<close>

theorem build_reachability_bdd_terminates_witness:
  "build_reachability_bdd net0 =
     Some (Node 0 (Node 2 (Leaf False) (Leaf True)) (Node 2 (Leaf True) (Leaf False)), [0, 2]) \<and>
   reach_step net0 (Node 0 (Node 2 (Leaf False) (Leaf True)) (Node 2 (Leaf True) (Leaf False))) =
     Node 0 (Node 2 (Leaf False) (Leaf True)) (Node 2 (Leaf True) (Leaf False))"
proof -
  from build_reachability_bdd_terminates[of net0] obtain R where
    R: "build_reachability_bdd net0 = Some (R, map fst (bdd_vars net0))" "reach_step net0 R = R"
    by blast
  have v: "build_reachability_bdd net0 =
     Some (Node 0 (Node 2 (Leaf False) (Leaf True)) (Node 2 (Leaf True) (Leaf False)), [0, 2])"
    by code_simp
  from R(1) v have "R = Node 0 (Node 2 (Leaf False) (Leaf True)) (Node 2 (Leaf True) (Leaf False))"
    by simp
  with R(2) v show ?thesis by simp
qed

text \<open>
  On \<open>net0\<close>: the initial marking 1 satisfies iterates 0 and 1; the marking 2 is added by
  the first step.
\<close>

theorem iterate_monotone_witness:
  "sat (iterate net0 0) (enc 1 0) \<and> sat (iterate net0 (Suc 0)) (enc 1 0) \<and>
   sat (iterate net0 (Suc 0)) (enc 2 0) \<and> \<not> sat (iterate net0 0) (enc 2 0)"
proof -
  have a: "sat (iterate net0 0) (enc 1 0)" by code_simp
  have b: "sat (iterate net0 (Suc 0)) (enc 1 0)" using iterate_monotone[of net0] a by blast
  have c: "sat (iterate net0 (Suc 0)) (enc 2 0)" by code_simp
  have d: "\<not> sat (iterate net0 0) (enc 2 0)" by code_simp
  show ?thesis using a b c d by blast
qed

section \<open>Explicit enumeration (\<^verbatim>\<open>bfs_reachability\<close> of reachability.py)\<close>

text \<open>
  \<open>bfs_visit\<close> is the \<^verbatim>\<open>for t in net.transitions\<close> loop for one marking taken from the queue,
  \<open>bfs_loop\<close> the \<^verbatim>\<open>while q\<close> loop (\<open>None\<close>: the loop never ends). The state is the set
  \<^verbatim>\<open>visited\<close> and the queue; the lists \<^verbatim>\<open>edges\<close> and \<^verbatim>\<open>pred\<close> are only written, never read,
  by the loop, and are left out.
\<close>

fun bfs_visit :: "int \<Rightarrow> transition list \<Rightarrow> int set \<times> int list \<Rightarrow> int set \<times> int list" where
  "bfs_visit M [] (visited, q) = (visited, q)"
| "bfs_visit M (t # ts) (visited, q) =
     (if is_enabled M t then
        (let M2 = fire M t
         in if M2 \<notin> visited then bfs_visit M ts (insert M2 visited, q @ [M2])
            else bfs_visit M ts (visited, q))
      else bfs_visit M ts (visited, q))"

partial_function (option) bfs_loop :: "transition list \<Rightarrow> int set \<Rightarrow> int list \<Rightarrow> int set option" where
  "bfs_loop ts visited q =
     (case q of
        [] \<Rightarrow> Some visited
      | M # q' \<Rightarrow> (case bfs_visit M ts (visited, q') of (visited', q'') \<Rightarrow> bfs_loop ts visited' q''))"

declare bfs_loop.simps [code]

definition bfs_reachability :: "petri_net \<Rightarrow> int set option" where
  "bfs_reachability net = bfs_loop (transitions net) {initial net} [initial net]"

text \<open>The markings reachable by the firing rule of reachability.py.\<close>

inductive_set reach :: "petri_net \<Rightarrow> int set" for net :: petri_net where
  init: "initial net \<in> reach net"
| step: "M \<in> reach net \<Longrightarrow> t \<in> set (transitions net) \<Longrightarrow> is_enabled M t \<Longrightarrow> fire M t \<in> reach net"


definition succs :: "int \<Rightarrow> transition list \<Rightarrow> int set" where
  "succs M ts = {fire M t | t. t \<in> set ts \<and> is_enabled M t}"

lemma succs_Nil [simp]: "succs M [] = {}"
  by (simp add: succs_def)

lemma succs_Cons: "succs M (t # ts) = (if is_enabled M t then insert (fire M t) (succs M ts) else succs M ts)"
  by (auto simp: succs_def)

lemma bfs_visit_spec:
  "bfs_visit M ts (V, q) = (V', q') \<Longrightarrow>
     V' = V \<union> succs M ts \<and> set q' = set q \<union> (V' - V) \<and> (V' = V \<longrightarrow> q' = q)"
proof (induction ts arbitrary: V q)
  case Nil
  then show ?case by auto
next
  case (Cons t ts)
  show ?case
  proof (cases "is_enabled M t \<and> fire M t \<notin> V")
    case True
    then have "bfs_visit M ts (insert (fire M t) V, q @ [fire M t]) = (V', q')"
      using Cons.prems by (simp add: Let_def)
    from Cons.IH[OF this] True show ?thesis
      by (auto simp: succs_Cons)
  next
    case False
    then have "bfs_visit M ts (V, q) = (V', q')"
      using Cons.prems by (auto simp: Let_def split: if_splits)
    from Cons.IH[OF this] False show ?thesis
      by (auto simp: succs_Cons)
  qed
qed

definition bfs_inv :: "petri_net \<Rightarrow> int set \<Rightarrow> int list \<Rightarrow> bool" where
  "bfs_inv net V q \<longleftrightarrow>
     initial net \<in> V \<and> V \<subseteq> reach net \<and> set q \<subseteq> V \<and>
     (\<forall>M\<in>V - set q. succs M (transitions net) \<subseteq> V)"

lemma succs_reach: "M \<in> reach net \<Longrightarrow> succs M (transitions net) \<subseteq> reach net"
  by (auto simp: succs_def intro: reach.step)

lemma bfs_inv_closed:
  assumes "bfs_inv net V []"
  shows "V = reach net"
proof
  show "V \<subseteq> reach net" using assms by (simp add: bfs_inv_def)
  show "reach net \<subseteq> V"
  proof
    fix M assume "M \<in> reach net"
    then show "M \<in> V"
    proof (induction rule: reach.induct)
      case init
      then show ?case using assms by (simp add: bfs_inv_def)
    next
      case (step M t)
      then have "fire M t \<in> succs M (transitions net)" by (auto simp: succs_def)
      then show ?case using assms step by (auto simp: bfs_inv_def)
    qed
  qed
qed

lemma bfs_inv_step:
  assumes inv: "bfs_inv net V (M # q)" and v: "bfs_visit M (transitions net) (V, q) = (V', q')"
  shows "bfs_inv net V' q'"
proof -
  from bfs_visit_spec[OF v] have V': "V' = V \<union> succs M (transitions net)"
    and q': "set q' = set q \<union> (V' - V)" by blast+
  have M: "M \<in> V" "M \<in> reach net" using inv by (auto simp: bfs_inv_def)
  have "initial net \<in> V'" using inv V' by (simp add: bfs_inv_def)
  moreover have "V' \<subseteq> reach net" using inv V' succs_reach[OF M(2)] by (auto simp: bfs_inv_def)
  moreover have "set q' \<subseteq> V'" using inv q' V' by (auto simp: bfs_inv_def)
  moreover have "\<forall>X\<in>V' - set q'. succs X (transitions net) \<subseteq> V'"
  proof
    fix X assume X: "X \<in> V' - set q'"
    then have XV: "X \<in> V" "X \<notin> set q" using q' by auto
    show "succs X (transitions net) \<subseteq> V'"
    proof (cases "X = M")
      case True
      then show ?thesis using V' by simp
    next
      case False
      then have "X \<in> V - set (M # q)" using XV by simp
      then have "succs X (transitions net) \<subseteq> V" using inv by (simp add: bfs_inv_def)
      then show ?thesis using V' by blast
    qed
  qed
  ultimately show ?thesis by (simp add: bfs_inv_def)
qed

lemma bfs_loop_correct:
  assumes fin: "finite (reach net)" and inv: "bfs_inv net V q"
  shows "bfs_loop (transitions net) V q = Some (reach net)"
proof -
  have "wf (measures [\<lambda>(V, q). card (reach net - V), \<lambda>(V, q). length q])" by simp
  then show ?thesis using inv
  proof (induction "(V, q)" arbitrary: V q rule: wf_induct_rule)
    case less
    show ?case
    proof (cases q)
      case Nil
      then have "V = reach net" using less.prems bfs_inv_closed by simp
      then show ?thesis using Nil by (subst bfs_loop.simps) simp
    next
      case (Cons M qs)
      obtain V' q' where v: "bfs_visit M (transitions net) (V, qs) = (V', q')"
        by (cases "bfs_visit M (transitions net) (V, qs)") auto
      have inv': "bfs_inv net V' q'"
        using bfs_inv_step[OF _ v] less.prems Cons by simp
      from bfs_visit_spec[OF v] have sub: "V \<subseteq> V'" and same: "V' = V \<longrightarrow> q' = qs" by blast+
      have V'r: "V' \<subseteq> reach net" using inv' by (simp add: bfs_inv_def)
      have dec: "((V', q'), (V, q)) \<in> measures [\<lambda>(V, q). card (reach net - V), \<lambda>(V, q). length q]"
      proof (cases "V' = V")
        case True
        then show ?thesis using same Cons by simp
      next
        case False
        then have "reach net - V' \<subset> reach net - V" using sub V'r by blast
        then have "card (reach net - V') < card (reach net - V)"
          using fin by (intro psubset_card_mono) auto
        then show ?thesis by simp
      qed
      have "bfs_loop (transitions net) V' q' = Some (reach net)"
        by (rule less.hyps[OF dec inv'])
      then show ?thesis using Cons v by (subst bfs_loop.simps) simp
    qed
  qed
qed

lemma bfs_inv_init: "bfs_inv net {initial net} [initial net]"
  by (simp add: bfs_inv_def reach.init)

lemma bfs_reachability_correct:
  "finite (reach net) \<Longrightarrow> bfs_reachability net = Some (reach net)"
  unfolding bfs_reachability_def by (rule bfs_loop_correct[OF _ bfs_inv_init])

text \<open>
  A net as \<^verbatim>\<open>parse_pnml\<close> builds it: the initial marking and the masks of every transition
  only have bits of places of the net.
\<close>

definition wf_net :: "petri_net \<Rightarrow> bool" where
  "wf_net net \<longleftrightarrow>
     (let n = length (places net)
      in take_bit n (initial net) = initial net \<and>
         (\<forall>t\<in>set (transitions net).
            take_bit n (pre_mask t) = pre_mask t \<and> take_bit n (post_mask t) = post_mask t))"

lemma bit_fire: "bit (fire M t) i \<longleftrightarrow> bit (post_mask t) i \<or> (bit M i \<and> \<not> bit (pre_mask t) i)"
  unfolding fire_def by (auto simp: bit_or_iff bit_and_iff bit_not_iff)

lemma is_enabled_iff: "is_enabled M t \<longleftrightarrow> (\<forall>i. bit (pre_mask t) i \<longrightarrow> bit M i)"
  unfolding is_enabled_def by (auto simp: bit_eq_iff bit_and_iff)

lemma take_bit_selfI: "(\<And>i. bit (M::int) i \<Longrightarrow> i < n) \<Longrightarrow> take_bit n M = M"
  by (rule bit_eqI) (auto simp: bit_take_bit_iff)

lemma fire_nbit:
  "take_bit n M = M \<Longrightarrow> take_bit n (post_mask t) = post_mask t \<Longrightarrow> take_bit n (fire M t) = fire M t"
  by (rule take_bit_selfI) (auto simp: bit_fire dest: take_bit_self_bit)

lemma reach_nbit:
  assumes "wf_net net" "M \<in> reach net"
  shows "take_bit (length (places net)) M = M"
  using assms(2)
proof (induction rule: reach.induct)
  case init
  then show ?case using assms(1) by (simp add: wf_net_def Let_def)
next
  case (step M t)
  then show ?case using assms(1) by (intro fire_nbit) (auto simp: wf_net_def Let_def)
qed

lemma finite_reach: "wf_net net \<Longrightarrow> finite (reach net)"
proof -
  assume w: "wf_net net"
  have "reach net \<subseteq> {M. take_bit (length (places net)) M = M}"
    using reach_nbit[OF w] by blast
  then show ?thesis unfolding nbit_set by (rule finite_subset) simp
qed


section \<open>1-safe nets\<close>

text \<open>
  Modelled from the spec: 1-safety ("every place holds at most one token", with unit arc
  weights) is a property of the token game, which the bit masks of the code cannot
  express. A token marking counts the tokens of each place; a transition is enabled when
  every preset place holds a token, and firing takes one token from each preset place and
  puts one on each postset place. A net is 1-safe when no reachable token marking has
  two tokens on a place. \<open>contact_free\<close> says the same on the bit masks of the code: no
  reachable marking enables a transition while a place of its postset that is not in
  its preset holds a token.
\<close>

definition tokens_of :: "int \<Rightarrow> nat \<Rightarrow> nat" where
  "tokens_of M p = (if bit M p then 1 else 0)"

definition tok_enabled :: "transition \<Rightarrow> (nat \<Rightarrow> nat) \<Rightarrow> bool" where
  "tok_enabled t m \<longleftrightarrow> (\<forall>p. bit (pre_mask t) p \<longrightarrow> 1 \<le> m p)"

definition tok_fire :: "transition \<Rightarrow> (nat \<Rightarrow> nat) \<Rightarrow> nat \<Rightarrow> nat" where
  "tok_fire t m p =
     m p - (if bit (pre_mask t) p then 1 else 0) + (if bit (post_mask t) p then 1 else 0)"

inductive_set tok_reach :: "petri_net \<Rightarrow> (nat \<Rightarrow> nat) set" for net :: petri_net where
  tok_init: "tokens_of (initial net) \<in> tok_reach net"
| tok_step: "m \<in> tok_reach net \<Longrightarrow> t \<in> set (transitions net) \<Longrightarrow> tok_enabled t m \<Longrightarrow>
     tok_fire t m \<in> tok_reach net"

definition one_safe :: "petri_net \<Rightarrow> bool" where
  "one_safe net \<longleftrightarrow> (\<forall>m\<in>tok_reach net. \<forall>p. m p \<le> 1)"

definition contact_free :: "petri_net \<Rightarrow> bool" where
  "contact_free net \<longleftrightarrow>
     (\<forall>M\<in>reach net. \<forall>t\<in>set (transitions net).
        is_enabled M t \<longrightarrow> M AND post_mask t AND NOT (pre_mask t) = 0)"

lemma contact_bits:
  "M AND post AND NOT pre = (0::int) \<longleftrightarrow> (\<forall>p. bit post p \<and> \<not> bit pre p \<longrightarrow> \<not> bit M p)"
proof
  assume a: "M AND post AND NOT pre = 0"
  show "\<forall>p. bit post p \<and> \<not> bit pre p \<longrightarrow> \<not> bit M p"
  proof (intro allI impI notI)
    fix p assume "bit post p \<and> \<not> bit pre p" "bit M p"
    then have "bit (M AND post AND NOT pre) p" by (simp add: bit_and_iff bit_not_iff)
    then show False using a by simp
  qed
next
  assume a: "\<forall>p. bit post p \<and> \<not> bit pre p \<longrightarrow> \<not> bit M p"
  show "M AND post AND NOT pre = 0"
  proof (rule bit_eqI)
    fix p
    show "bit (M AND post AND NOT pre) p = bit (0::int) p"
      using a by (auto simp: bit_and_iff bit_not_iff)
  qed
qed

lemma tok_enabled_tokens_of: "tok_enabled t (tokens_of M) \<longleftrightarrow> is_enabled M t"
  by (auto simp: tok_enabled_def tokens_of_def is_enabled_iff)

lemma tok_fire_tokens_of:
  assumes en: "is_enabled M t"
    and cf: "\<forall>p. bit (post_mask t) p \<and> \<not> bit (pre_mask t) p \<longrightarrow> \<not> bit M p"
  shows "tok_fire t (tokens_of M) = tokens_of (fire M t)"
proof
  fix p
  have e: "bit (pre_mask t) p \<Longrightarrow> bit M p" using en unfolding is_enabled_iff by blast
  have c: "bit (post_mask t) p \<Longrightarrow> \<not> bit (pre_mask t) p \<Longrightarrow> \<not> bit M p" using cf by blast
  show "tok_fire t (tokens_of M) p = tokens_of (fire M t) p"
  proof (cases "bit (pre_mask t) p")
    case True
    then have "bit M p" by (rule e)
    with True show ?thesis by (simp add: tok_fire_def tokens_of_def bit_fire)
  next
    case False
    show ?thesis
    proof (cases "bit (post_mask t) p")
      case True
      then have "\<not> bit M p" using False by (rule c)
      with True False show ?thesis by (simp add: tok_fire_def tokens_of_def bit_fire)
    next
      case f: False
      with False show ?thesis by (simp add: tok_fire_def tokens_of_def bit_fire)
    qed
  qed
qed

lemma one_safe_contact:
  assumes os: "one_safe net" and M: "M \<in> reach net"
  shows "tokens_of M \<in> tok_reach net"
  using M
proof (induction rule: reach.induct)
  case init
  show ?case by (rule tok_init)
next
  case (step M t)
  have en: "tok_enabled t (tokens_of M)" using step by (simp add: tok_enabled_tokens_of)
  have r: "tok_fire t (tokens_of M) \<in> tok_reach net"
    by (rule tok_step[OF step.IH step.hyps(2) en])
  have "\<forall>p. bit (post_mask t) p \<and> \<not> bit (pre_mask t) p \<longrightarrow> \<not> bit M p"
  proof (intro allI impI)
    fix p assume p: "bit (post_mask t) p \<and> \<not> bit (pre_mask t) p"
    have "tok_fire t (tokens_of M) p \<le> 1" using os r by (simp add: one_safe_def)
    then show "\<not> bit M p" using p by (auto simp: tok_fire_def tokens_of_def split: if_splits)
  qed
  then have "tok_fire t (tokens_of M) = tokens_of (fire M t)"
    using step.hyps(3) by (intro tok_fire_tokens_of) auto
  with r show ?case by simp
qed

lemma one_safe_imp_contact_free: "one_safe net \<Longrightarrow> contact_free net"
  unfolding contact_free_def contact_bits
proof (intro ballI impI allI)
  fix M t p
  assume os: "one_safe net" and M: "M \<in> reach net" and t: "t \<in> set (transitions net)"
    and en: "is_enabled M t" and p: "bit (post_mask t) p \<and> \<not> bit (pre_mask t) p"
  have "tok_fire t (tokens_of M) \<in> tok_reach net"
    using tok_step[OF one_safe_contact[OF os M] t] en by (simp add: tok_enabled_tokens_of)
  then have "tok_fire t (tokens_of M) p \<le> 1" using os by (simp add: one_safe_def)
  then show "\<not> bit M p" using p by (auto simp: tok_fire_def tokens_of_def split: if_splits)
qed

lemma contact_free_imp_one_safe:
  assumes cf: "contact_free net"
  shows "one_safe net"
proof -
  have "\<exists>M\<in>reach net. m = tokens_of M" if "m \<in> tok_reach net" for m
    using that
  proof (induction rule: tok_reach.induct)
    case tok_init
    show ?case using reach.init by blast
  next
    case (tok_step m t)
    then obtain M where M: "M \<in> reach net" "m = tokens_of M" by blast
    have en: "is_enabled M t" using tok_step.hyps(3) M by (simp add: tok_enabled_tokens_of)
    have "\<forall>p. bit (post_mask t) p \<and> \<not> bit (pre_mask t) p \<longrightarrow> \<not> bit M p"
      using cf M(1) tok_step.hyps(2) en unfolding contact_free_def contact_bits by blast
    then have "tok_fire t m = tokens_of (fire M t)"
      using M(2) tok_fire_tokens_of[OF en] by simp
    moreover have "fire M t \<in> reach net" by (rule reach.step[OF M(1) tok_step.hyps(2) en])
    ultimately show ?case by blast
  qed
  then show ?thesis by (fastforce simp: one_safe_def tokens_of_def)
qed

lemma one_safe_iff_contact_free: "one_safe net \<longleftrightarrow> contact_free net"
  using one_safe_imp_contact_free contact_free_imp_one_safe by blast

section \<open>The diagram and the enumeration denote the same set\<close>

lemma sym_fire_imp:
  assumes M: "take_bit n M = M" and M': "take_bit n M' = M'"
    and pre: "take_bit n (pre_mask t) = pre_mask t" and post: "take_bit n (post_mask t) = post_mask t"
    and sf: "sym_fire n t M M'"
  shows "is_enabled M t \<and> M' = fire M t"
proof
  show "is_enabled M t"
    unfolding is_enabled_iff
  proof (intro allI impI)
    fix i assume b: "bit (pre_mask t) i"
    have "i < n" by (rule take_bit_self_bit[OF pre b])
    then show "bit M i" using sf b by (simp add: sym_fire_def)
  qed
  show "M' = fire M t"
  proof (rule bit_eqI)
    fix i
    show "bit M' i = bit (fire M t) i"
    proof (cases "i < n")
      case True
      then have "effect (bit (pre_mask t) i) (bit (post_mask t) i) (bit M i) (bit M' i)"
        using sf by (simp add: sym_fire_def)
      then show ?thesis by (auto simp: effect_def bit_fire split: if_splits)
    next
      case False
      then have "\<not> bit M' i" "\<not> bit M i" "\<not> bit (post_mask t) i"
        using M M' post take_bit_self_bit by blast+
      then show ?thesis by (simp add: bit_fire)
    qed
  qed
qed

lemma sym_fire_conv:
  assumes en: "is_enabled M t"
    and cf: "\<forall>p. bit (post_mask t) p \<and> \<not> bit (pre_mask t) p \<longrightarrow> \<not> bit M p"
  shows "sym_fire n t M (fire M t)"
  using assms by (auto simp: sym_fire_def effect_def bit_fire is_enabled_iff)

lemma markings_iterate_sub:
  assumes w: "wf_net net"
  shows "markings (length (places net)) (iterate net k) \<subseteq> reach net"
proof (induction k)
  case 0
  have "take_bit (length (places net)) (initial net) = initial net"
    using w by (simp add: wf_net_def Let_def)
  then show ?case by (simp add: iterate_funpow markings_initial_bdd reach.init)
next
  case (Suc k)
  let ?n = "length (places net)"
  have eq: "iterate net (Suc k) = sym_step ?n (transitions net) (iterate net k)"
    by (simp add: iterate_funpow)
  have "M' \<in> reach net"
    if a: "take_bit ?n M' = M'" "M \<in> markings ?n (iterate net k)" "t \<in> set (transitions net)"
       "sym_fire ?n t M M'" for M M' t
  proof -
    have Mn: "take_bit ?n M = M" using a(2) by (simp add: markings_def)
    have Mr: "M \<in> reach net" using a(2) Suc by blast
    have pre: "take_bit ?n (pre_mask t) = pre_mask t" and post: "take_bit ?n (post_mask t) = post_mask t"
      using w a(3) by (auto simp: wf_net_def Let_def)
    from sym_fire_imp[OF Mn a(1) pre post a(4)] have "is_enabled M t" "M' = fire M t" by blast+
    then show "M' \<in> reach net" using reach.step[OF Mr a(3)] by simp
  qed
  then show ?case
    unfolding eq markings_sym_step[OF robdd_iterate curr_only_iterate] using Suc by blast
qed

lemma markings_iterate_mono: "j \<le> k \<Longrightarrow> markings n (iterate net j) \<subseteq> markings n (iterate net k)"
proof (induction k)
  case 0
  then show ?case by simp
next
  case (Suc k)
  have s: "markings n (iterate net k) \<subseteq> markings n (iterate net (Suc k))"
    by (auto simp: markings_def sat_iterate_mono)
  show ?case
  proof (cases "j = Suc k")
    case True
    then show ?thesis by simp
  next
    case False
    then have "j \<le> k" using Suc.prems by simp
    then show ?thesis using Suc.IH s by blast
  qed
qed

lemma reach_sub_markings:
  assumes w: "wf_net net" and cf: "contact_free net"
    and fp: "reach_step net (iterate net k) = iterate net k"
  shows "reach net \<subseteq> markings (length (places net)) (iterate net k)"
proof
  let ?n = "length (places net)"
  fix M assume "M \<in> reach net"
  then show "M \<in> markings ?n (iterate net k)"
  proof (induction rule: reach.induct)
    case init
    have "take_bit ?n (initial net) = initial net" using w by (simp add: wf_net_def Let_def)
    then have "initial net \<in> markings ?n (iterate net 0)"
      by (simp add: iterate_funpow markings_initial_bdd)
    then show ?case using markings_iterate_mono[of 0 k ?n net] by blast
  next
    case (step M t)
    have c: "\<forall>p. bit (post_mask t) p \<and> \<not> bit (pre_mask t) p \<longrightarrow> \<not> bit M p"
      using cf step.hyps unfolding contact_free_def contact_bits by blast
    have sf: "sym_fire ?n t M (fire M t)" by (rule sym_fire_conv[OF step.hyps(3) c])
    have "fire M t \<in> reach net" by (rule reach.step[OF step.hyps])
    then have nb: "take_bit ?n (fire M t) = fire M t" by (rule reach_nbit[OF w])
    have "fire M t \<in> markings ?n (sym_step ?n (transitions net) (iterate net k))"
      unfolding markings_sym_step[OF robdd_iterate curr_only_iterate]
      using nb step.IH step.hyps(2) sf by blast
    then show ?case using fp by (simp add: reach_step_sym_step)
  qed
qed

lemma subst_bvn:
  "foldl (\<lambda>m (i, var). m(var \<mapsto> (if bit_at M i = 1 then Leaf True else Leaf False)))
     Map.empty (enumerate 0 (map fst (bvn n))) =
   (\<lambda>v. if v \<in> curr ` {..<n} then Some (Leaf (bit M (v div 2))) else None)"
proof (induction n)
  case 0
  show ?case by (simp add: bvn_def)
next
  case (Suc n)
  have e: "enumerate 0 (map fst (bvn (Suc n))) = enumerate 0 (map fst (bvn n)) @ [(n, curr n)]"
    by (simp add: bvn_def enumerate_append_eq)
  show ?case
    unfolding e foldl_append Suc
    by (rule ext) (auto simp: curr_div2 lessThan_Suc)
qed

lemma is_marking_reachable_bdd_iff:
  assumes R: "robdd_from 0 R" and co: "curr_only n R"
  shows "is_marking_reachable_bdd M R (map fst (bvn n)) \<longleftrightarrow> sat R (enc M 0)"
proof -
  let ?m = "\<lambda>v. if v \<in> curr ` {..<n} then Some (Leaf (bit M (v div 2))) else None"
  have rl: "robdd_from 0 (bdd_let ?m R)"
    by (rule robdd_let) (auto split: if_splits)
  have s: "sat (bdd_let ?m R) s = sat R (enc M 0)" for s
    unfolding sat_let by (rule sat_curr_only[OF co]) (simp add: curr_div2)
  have "bdd_let ?m R = Leaf True \<longleftrightarrow> sat R (enc M 0)"
  proof
    assume "bdd_let ?m R = Leaf True"
    then show "sat R (enc M 0)" using s[of "\<lambda>_. False"] by simp
  next
    assume a: "sat R (enc M 0)"
    have "robdd_from 0 (Leaf True)" by simp
    from robdd_canonical[OF rl this] show "bdd_let ?m R = Leaf True" using s a by simp
  qed
  then show ?thesis unfolding is_marking_reachable_bdd_def Let_def subst_bvn .
qed


text \<open>
  Modelled from the spec: \<^verbatim>\<open>count(u, nvars)\<close> of the diagram manager, the number of
  satisfying assignments of \<open>u\<close> as a function of \<open>nvars\<close> variables: the count over the
  variables \<open>u\<close> depends on, times two for each further variable. The library refuses an
  \<open>nvars\<close> smaller than the support (\<open>None\<close>).
\<close>

fun support :: "bdd \<Rightarrow> nat set" where
  "support (Leaf b) = {}"
| "support (Node v l h) = insert v (support l \<union> support h)"

definition bdd_count :: "bdd \<Rightarrow> nat \<Rightarrow> nat option" where
  "bdd_count u nvars =
     (let supp = support u
      in if nvars < card supp then None
         else Some (card {A \<in> Pow supp. sat u (\<lambda>v. v \<in> A)} * 2 ^ (nvars - card supp)))"


lemma finite_support: "finite (support u)"
  by (induction u) auto

lemma sat_support: "(\<And>v. v \<in> support u \<Longrightarrow> s v = s' v) \<Longrightarrow> sat u s = sat u s'"
  by (induction u) auto

lemma support_lb: "robdd_from n u \<Longrightarrow> v \<in> support u \<Longrightarrow> n \<le> v"
  by (induction u arbitrary: n) fastforce+

lemma support_essential:
  "robdd_from n u \<Longrightarrow> v \<in> support u \<Longrightarrow> \<exists>s. sat u (s(v := True)) \<noteq> sat u (s(v := False))"
proof (induction u arbitrary: n)
  case (Leaf b)
  then show ?case by simp
next
  case (Node w l h)
  then have rl: "robdd_from (Suc w) l" and rh: "robdd_from (Suc w) h" and lh: "l \<noteq> h" by auto
  consider "v = w" | "v \<noteq> w" "v \<in> support l" | "v \<noteq> w" "v \<in> support h"
    using Node.prems(2) by auto
  then show ?case
  proof cases
    case 1
    have "\<exists>s. sat l s \<noteq> sat h s"
    proof (rule ccontr)
      assume "\<not> (\<exists>s. sat l s \<noteq> sat h s)"
      then have "\<And>s. sat l s = sat h s" by blast
      then have "l = h" by (rule robdd_canonical[OF rl rh])
      with lh show False by simp
    qed
    then obtain s where s: "sat l s \<noteq> sat h s" by blast
    have "sat h (s(w := True)) = sat h s" by (rule sat_indep[OF rh]) simp
    moreover have "sat l (s(w := False)) = sat l s" by (rule sat_indep[OF rl]) simp
    ultimately have "sat (Node w l h) (s(w := True)) \<noteq> sat (Node w l h) (s(w := False))"
      using s by simp
    then show ?thesis using 1 by blast
  next
    case 2
    from Node.IH(1)[OF rl 2(2)] obtain s where s: "sat l (s(v := True)) \<noteq> sat l (s(v := False))"
      by blast
    let ?s = "s(w := False)"
    have "sat l (?s(v := True)) = sat l (s(v := True))" by (rule sat_indep[OF rl]) (use 2 in auto)
    moreover have "sat l (?s(v := False)) = sat l (s(v := False))" by (rule sat_indep[OF rl]) (use 2 in auto)
    ultimately have "sat (Node w l h) (?s(v := True)) \<noteq> sat (Node w l h) (?s(v := False))"
      using s 2 by simp
    then show ?thesis by blast
  next
    case 3
    from Node.IH(2)[OF rh 3(2)] obtain s where s: "sat h (s(v := True)) \<noteq> sat h (s(v := False))"
      by blast
    let ?s = "s(w := True)"
    have "sat h (?s(v := True)) = sat h (s(v := True))" by (rule sat_indep[OF rh]) (use 3 in auto)
    moreover have "sat h (?s(v := False)) = sat h (s(v := False))" by (rule sat_indep[OF rh]) (use 3 in auto)
    ultimately have "sat (Node w l h) (?s(v := True)) \<noteq> sat (Node w l h) (?s(v := False))"
      using s 3 by simp
    then show ?thesis by blast
  qed
qed

lemma support_curr_only:
  assumes R: "robdd_from 0 R" and co: "curr_only n R"
  shows "support R \<subseteq> curr ` {..<n}"
proof
  fix v assume v: "v \<in> support R"
  from support_essential[OF R v] obtain s where s: "sat R (s(v := True)) \<noteq> sat R (s(v := False))"
    by blast
  show "v \<in> curr ` {..<n}"
  proof (rule ccontr)
    assume n: "v \<notin> curr ` {..<n}"
    have "sat R (s(v := True)) = sat R (s(v := False))"
      by (rule sat_curr_only[OF co]) (use n in auto)
    with s show False by simp
  qed
qed

lemma card_split_support:
  assumes fV: "finite V" and SV: "S \<subseteq> V"
  shows "card {C \<in> Pow V. P (C \<inter> S)} = card {A \<in> Pow S. P A} * 2 ^ card (V - S)"
proof -
  let ?X = "{A \<in> Pow S. P A} \<times> Pow (V - S)"
  let ?g = "\<lambda>(A, B). A \<union> B"
  have inj: "inj_on ?g ?X"
  proof (rule inj_onI)
    fix x y assume x: "x \<in> ?X" and y: "y \<in> ?X" and e: "?g x = ?g y"
    obtain A B where xe: "x = (A, B)" by (cases x)
    obtain A' B' where ye: "y = (A', B')" by (cases y)
    have a: "A \<subseteq> S" "B \<subseteq> V - S" "A' \<subseteq> S" "B' \<subseteq> V - S" using x y xe ye by auto
    have u: "A \<union> B = A' \<union> B'" using e xe ye by simp
    have "A = (A \<union> B) \<inter> S" using a by blast
    also have "\<dots> = (A' \<union> B') \<inter> S" using u by simp
    also have "\<dots> = A'" using a by blast
    finally have 1: "A = A'" .
    have "B = (A \<union> B) - S" using a by blast
    also have "\<dots> = (A' \<union> B') - S" using u by simp
    also have "\<dots> = B'" using a by blast
    finally have 2: "B = B'" .
    show "x = y" using 1 2 xe ye by simp
  qed
  have img: "?g ` ?X = {C \<in> Pow V. P (C \<inter> S)}"
  proof (intro set_eqI iffI)
    fix C assume "C \<in> ?g ` ?X"
    then obtain A B where AB: "A \<subseteq> S" "P A" "B \<subseteq> V - S" "C = A \<union> B" by auto
    then have "C \<inter> S = A" by blast
    then show "C \<in> {C \<in> Pow V. P (C \<inter> S)}" using AB SV by auto
  next
    fix C assume "C \<in> {C \<in> Pow V. P (C \<inter> S)}"
    then have C: "C \<subseteq> V" "P (C \<inter> S)" by auto
    have "(C \<inter> S, C - S) \<in> ?X" using C by auto
    moreover have "?g (C \<inter> S, C - S) = C" by auto
    ultimately show "C \<in> ?g ` ?X" by (metis (no_types, lifting) image_eqI)
  qed
  have "card {C \<in> Pow V. P (C \<inter> S)} = card ?X"
    using card_image[OF inj] img by simp
  also have "\<dots> = card {A \<in> Pow S. P A} * card (Pow (V - S))"
    by (rule card_cartesian_product)
  also have "card (Pow (V - S)) = 2 ^ card (V - S)"
    using fV by (intro card_Pow) simp
  finally show ?thesis .
qed

lemma inj_curr: "inj_on curr A"
  by (rule inj_onI) simp

lemma card_markings_sets:
  assumes co: "curr_only n R"
  shows "card (markings n R) = card {C \<in> Pow (curr ` {..<n}). sat R (\<lambda>v. v \<in> C)}"
proof -
  let ?f = "\<lambda>M. curr ` {i. bit (M::int) i}"
  let ?T = "{C \<in> Pow (curr ` {..<n}). sat R (\<lambda>v. v \<in> C)}"
  have agree: "sat R (enc M 0) = sat R (\<lambda>v. v \<in> ?f M)" for M
    by (rule sat_curr_only[OF co]) simp
  have inj: "inj_on ?f (markings n R)"
  proof (rule inj_onI)
    fix M M' assume e: "?f M = ?f M'"
    have "{i. bit M i} = {i. bit M' i}" using e inj_curr[of UNIV] by (simp add: inj_image_eq_iff)
    then have "\<And>i. bit M i = bit M' i" by blast
    then show "M = M'" by (rule bit_eqI)
  qed
  have img: "?f ` markings n R = ?T"
  proof (intro set_eqI iffI)
    fix C assume "C \<in> ?f ` markings n R"
    then obtain M where M: "take_bit n M = M" "sat R (enc M 0)" "C = ?f M"
      by (auto simp: markings_def)
    have "C \<subseteq> curr ` {..<n}" using M(1,3) take_bit_self_bit by blast
    then show "C \<in> ?T" using M agree by simp
  next
    fix C assume "C \<in> ?T"
    then have C: "C \<subseteq> curr ` {..<n}" "sat R (\<lambda>v. v \<in> C)" by auto
    let ?M = "marking_of n (\<lambda>i. curr i \<in> C)"
    have fM: "?f ?M = C" using C(1) by auto
    then have "sat R (enc ?M 0)" using agree[of ?M] C(2) by simp
    then have "?M \<in> markings n R" by (simp add: markings_def)
    then show "C \<in> ?f ` markings n R" using fM by (metis (no_types, lifting) image_eqI)
  qed
  show ?thesis using card_image[OF inj] img by simp
qed

lemma bdd_count_markings:
  assumes R: "robdd_from 0 R" and co: "curr_only n R"
  shows "bdd_count R n = Some (card (markings n R))"
proof -
  let ?V = "curr ` {..<n}"
  let ?S = "support R"
  have SV: "?S \<subseteq> ?V" by (rule support_curr_only[OF R co])
  have fV: "finite ?V" by simp
  have cV: "card ?V = n" by (simp add: card_image inj_curr)
  have cS: "card ?S \<le> n" using card_mono[OF fV SV] cV by simp
  have cD: "card (?V - ?S) = n - card ?S"
    using card_Diff_subset[OF finite_support SV] cV by simp
  have "sat R (\<lambda>v. v \<in> C) = sat R (\<lambda>v. v \<in> C \<inter> ?S)" for C
    by (rule sat_support) simp
  then have "card (markings n R) = card {C \<in> Pow ?V. sat R (\<lambda>v. v \<in> C \<inter> ?S)}"
    using card_markings_sets[OF co] by simp
  also have "\<dots> = card {A \<in> Pow ?S. sat R (\<lambda>v. v \<in> A)} * 2 ^ card (?V - ?S)"
    by (rule card_split_support[OF fV SV])
  finally show ?thesis using cS cD by (simp add: bdd_count_def Let_def)
qed


text \<open>
  C1. For every 1-safe net (as the parser builds it), \<^verbatim>\<open>build_reachability_bdd\<close> and
  \<^verbatim>\<open>bfs_reachability\<close> both return, and agree: a bit vector \<open>M\<close> over the places passes
  \<^verbatim>\<open>is_marking_reachable_bdd\<close> on the converged diagram exactly when it is in the visited
  set, and \<^verbatim>\<open>count(R, nvars = len(curr_vars))\<close> is the size of the visited set.
\<close>

theorem symbolic_agrees_with_bfs:
  assumes w: "wf_net net" and os: "one_safe net"
  shows "\<exists>R V. build_reachability_bdd net = Some (R, map fst (bdd_vars net)) \<and>
           bfs_reachability net = Some V \<and>
           (\<forall>M. take_bit (length (places net)) M = M \<longrightarrow>
                (is_marking_reachable_bdd M R (map fst (bdd_vars net)) \<longleftrightarrow> M \<in> V)) \<and>
           bdd_count R (length (map fst (bdd_vars net))) = Some (card V)"
proof -
  let ?n = "length (places net)"
  obtain k where k: "build_reachability_bdd net = Some (iterate net k, map fst (bdd_vars net))"
      "reach_step net (iterate net k) = iterate net k"
    using build_reachability_bdd_iterate by blast
  let ?R = "iterate net k"
  have R: "robdd_from 0 ?R" by (rule robdd_iterate)
  have co: "curr_only ?n ?R" by (rule curr_only_iterate)
  have cf: "contact_free net" by (rule one_safe_imp_contact_free[OF os])
  have mr: "markings ?n ?R = reach net"
    using markings_iterate_sub[OF w, of k] reach_sub_markings[OF w cf k(2)] by blast
  have bfs: "bfs_reachability net = Some (reach net)"
    by (rule bfs_reachability_correct[OF finite_reach[OF w]])
  have mem: "\<forall>M. take_bit ?n M = M \<longrightarrow>
      (is_marking_reachable_bdd M ?R (map fst (bdd_vars net)) \<longleftrightarrow> M \<in> reach net)"
  proof (intro allI impI)
    fix M :: int assume M: "take_bit ?n M = M"
    have "is_marking_reachable_bdd M ?R (map fst (bdd_vars net)) \<longleftrightarrow> sat ?R (enc M 0)"
      unfolding bdd_vars_bvn by (rule is_marking_reachable_bdd_iff[OF R co])
    also have "\<dots> \<longleftrightarrow> M \<in> markings ?n ?R" using M by (simp add: markings_def)
    finally show "is_marking_reachable_bdd M ?R (map fst (bdd_vars net)) \<longleftrightarrow> M \<in> reach net"
      using mr by simp
  qed
  have "length (map fst (bdd_vars net)) = ?n" by (simp add: bdd_vars_def)
  then have cnt: "bdd_count ?R (length (map fst (bdd_vars net))) = Some (card (reach net))"
    using bdd_count_markings[OF R co] mr by simp
  show ?thesis using k(1) bfs mem cnt by blast
qed

lemma wf_net0: "wf_net net0"
  by (simp add: wf_net_def net0_def)

lemma reach_net0: "reach net0 = {2, 1}"
proof -
  have "bfs_reachability net0 = Some {2, 1}" by code_simp
  then show ?thesis using bfs_reachability_correct[OF finite_reach[OF wf_net0]] by simp
qed

lemma one_safe_net0: "one_safe net0"
  unfolding one_safe_iff_contact_free contact_free_def reach_net0
  by (simp add: net0_def is_enabled_def)

text \<open>
  \<open>net0\<close> is 1-safe; both computations give the markings 1 and 2, the diagram accepts 2
  and rejects 3, and the count is 2.
\<close>

theorem symbolic_agrees_with_bfs_witness:
  "wf_net net0 \<and> one_safe net0 \<and>
   build_reachability_bdd net0 =
     Some (Node 0 (Node 2 (Leaf False) (Leaf True)) (Node 2 (Leaf True) (Leaf False)), [0, 2]) \<and>
   bfs_reachability net0 = Some {2, 1} \<and>
   is_marking_reachable_bdd 2 (Node 0 (Node 2 (Leaf False) (Leaf True)) (Node 2 (Leaf True) (Leaf False))) [0, 2] \<and>
   \<not> is_marking_reachable_bdd 3 (Node 0 (Node 2 (Leaf False) (Leaf True)) (Node 2 (Leaf True) (Leaf False))) [0, 2] \<and>
   bdd_count (Node 0 (Node 2 (Leaf False) (Leaf True)) (Node 2 (Leaf True) (Leaf False))) 2 = Some 2"
proof -
  let ?R0 = "Node 0 (Node 2 (Leaf False) (Leaf True)) (Node 2 (Leaf True) (Leaf False))"
  from symbolic_agrees_with_bfs[OF wf_net0 one_safe_net0] obtain R V where
    a: "build_reachability_bdd net0 = Some (R, map fst (bdd_vars net0))"
    and b: "bfs_reachability net0 = Some V"
    and c: "\<forall>M. take_bit (length (places net0)) M = M \<longrightarrow>
                (is_marking_reachable_bdd M R (map fst (bdd_vars net0)) \<longleftrightarrow> M \<in> V)"
    and d: "bdd_count R (length (map fst (bdd_vars net0))) = Some (card V)"
    by blast
  have v1: "build_reachability_bdd net0 = Some (?R0, [0, 2])" by code_simp
  have v2: "bfs_reachability net0 = Some {2, 1}" by code_simp
  have cv: "map fst (bdd_vars net0) = [0, 2]" by code_simp
  have n: "length (places net0) = 2" by (simp add: net0_def)
  have R: "R = ?R0" using a v1 by simp
  have V: "V = {2, 1}" using b v2 by simp
  have t2: "take_bit 2 (2::int) = 2" and t3: "take_bit 2 (3::int) = 3" by simp_all
  have m2: "is_marking_reachable_bdd 2 ?R0 [0, 2]" using c t2 unfolding R V cv n by blast
  have m3: "\<not> is_marking_reachable_bdd 3 ?R0 [0, 2]"
  proof -
    have "is_marking_reachable_bdd 3 ?R0 [0, 2] \<longleftrightarrow> (3::int) \<in> {2, 1}"
      using c t3 unfolding R V cv n by blast
    then show ?thesis by simp
  qed
  have cd: "card {2, 1::int} = 2" by simp
  have ln: "length [0::nat, 2] = 2" by simp
  have cnt: "bdd_count ?R0 2 = Some 2" using d unfolding R V cv cd ln .
  show ?thesis using wf_net0 one_safe_net0 v1 v2 m2 m3 cnt by blast
qed

text \<open>
  1-safety is needed. With a token on both places, the transition of \<open>net0\<close> puts a second
  token on \<open>p1\<close>: the net is not 1-safe. \<^verbatim>\<open>fire\<close> reaches the marking 2, which the relation
  of the diagram (0 to 1 on a postset-only place) does not produce.
\<close>

definition net_unsafe :: petri_net where
  "net_unsafe = \<lparr>places = [''p0'', ''p1''], place_index = [''p0'' \<mapsto> 0, ''p1'' \<mapsto> 1],
     transitions = [\<lparr>tid = ''t'', tname = ''t'', pre_mask = 1, post_mask = 2\<rparr>], initial = 3\<rparr>"

lemma net_unsafe_disagrees:
  "\<not> one_safe net_unsafe \<and>
   bfs_reachability net_unsafe = Some {2, 3} \<and>
   build_reachability_bdd net_unsafe = Some (Node 0 (Leaf False) (Node 2 (Leaf False) (Leaf True)), [0, 2]) \<and>
   \<not> is_marking_reachable_bdd 2 (Node 0 (Leaf False) (Node 2 (Leaf False) (Leaf True))) [0, 2]"
proof -
  let ?t = "\<lparr>tid = ''t'', tname = ''t'', pre_mask = 1, post_mask = 2\<rparr>"
  have r: "3 \<in> reach net_unsafe" using reach.init[of net_unsafe] by (simp add: net_unsafe_def)
  have t: "?t \<in> set (transitions net_unsafe)" by (simp add: net_unsafe_def)
  have en: "is_enabled 3 ?t" by (simp add: is_enabled_def)
  have c: "(3::int) AND post_mask ?t AND NOT (pre_mask ?t) \<noteq> 0" by simp
  have a: "\<not> one_safe net_unsafe"
    unfolding one_safe_iff_contact_free contact_free_def using r t en c by blast
  have b: "bfs_reachability net_unsafe = Some {2, 3}" by code_simp
  have d: "build_reachability_bdd net_unsafe =
      Some (Node 0 (Leaf False) (Node 2 (Leaf False) (Leaf True)), [0, 2])" by code_simp
  have e: "\<not> is_marking_reachable_bdd 2 (Node 0 (Leaf False) (Node 2 (Leaf False) (Leaf True))) [0, 2]"
    by code_simp
  show ?thesis using a b d e by blast
qed

section \<open>Deadlock search (deadlock_ilp.py)\<close>

text \<open>The decimal digits of a natural number, as \<^verbatim>\<open>f"{i}"\<close> prints them.\<close>

fun dec :: "nat \<Rightarrow> string" where
  "dec n = (if n < 10 then [char_of (48 + n)] else dec (n div 10) @ [char_of (48 + n mod 10)])"

declare dec.simps [simp del]


text \<open>
  The feasibility model handed to the solver. A linear expression is a list of terms
  \<open>x_i\<close> or \<open>1 - x_i\<close> over the binary variables, one per place; a constraint bounds
  their sum from below (\<open>GE\<close>) or above (\<open>LE\<close>). The model is the list of its
  constraints (the objective is the constant 0).

  \<open>lp_iadd\<close> is \<^verbatim>\<open>model += (operand, name)\<close> of PuLP, an external library. A constraint
  object is given the name, in which PuLP replaces each of the characters \<^verbatim>\<open>-+[]\<close> and the
  space by an underscore (\<open>pulp_name\<close>), and is appended; a name the model already has is
  refused with \<^verbatim>\<open>PulpError\<close>. A Python bool is not a constraint: \<^verbatim>\<open>True\<close> is ignored and
  \<^verbatim>\<open>False\<close> is refused with \<^verbatim>\<open>TypeError\<close>. The operand of \<^verbatim>\<open>model += 0 >= 1, name\<close> is a
  comparison of two Python integers, which Python evaluates to the bool \<^verbatim>\<open>False\<close> before
  PuLP sees it: \<open>PyBool (0 \<ge> 1)\<close>.

  The exceptions of the programs: \<^verbatim>\<open>TypeError\<close> and \<^verbatim>\<open>PulpError\<close> of PuLP, and those of
  the diagram library, \<open>EqRefused\<close> where a node is compared with a value that is not a node
  and \<open>NoVariable\<close> where the variable of a terminal is asked for.
\<close>

datatype py_error = TypeError | PulpError | EqRefused | NoVariable

datatype lin_term = X nat | OneMinusX nat

datatype sense = GE | LE

record constraint =
  terms :: "lin_term list"
  sense :: sense
  rhs :: int
  cname :: string

type_synonym lp_model = "constraint list"

datatype operand = PyBool bool | PyConstraint constraint

definition pulp_name :: "string \<Rightarrow> string" where
  "pulp_name name = map (\<lambda>c. if c \<in> set ''-+[] '' then CHR ''_'' else c) name"

fun lp_iadd :: "lp_model \<Rightarrow> operand \<times> string \<Rightarrow> py_error + lp_model" where
  "lp_iadd model (PyBool True, name) = Inr model"
| "lp_iadd model (PyBool False, name) = Inl TypeError"
| "lp_iadd model (PyConstraint c, name) =
     (if pulp_name name \<in> set (map cname model) then Inl PulpError
      else Inr (model @ [c\<lparr>cname := pulp_name name\<rparr>]))"

definition lp_ge :: "lin_term list \<Rightarrow> int \<Rightarrow> constraint" where
  "lp_ge e b = \<lparr>terms = e, sense = GE, rhs = b, cname = []\<rparr>"

definition lp_le :: "lin_term list \<Rightarrow> int \<Rightarrow> constraint" where
  "lp_le e b = \<lparr>terms = e, sense = LE, rhs = b, cname = []\<rparr>"

text \<open>
  \<^verbatim>\<open>build_deadlock_ilp_model\<close>: the loop over the transitions, adding for each one the
  constraint that some preset place is empty.
\<close>

fun add_dead_constraints :: "nat \<Rightarrow> transition list \<Rightarrow> lp_model \<Rightarrow> py_error + lp_model" where
  "add_dead_constraints num_places [] model = Inr model"
| "add_dead_constraints num_places (t # ts) model =
     (let preset_indices = filter (\<lambda>i. bit_at (pre_mask t) i \<noteq> 0) [0..<num_places]
      in case (if preset_indices \<noteq> []
               then lp_iadd model (PyConstraint (lp_ge (map OneMinusX preset_indices) 1), ''dead_t_'' @ tid t)
               else lp_iadd model (PyBool ((0::int) \<ge> 1), ''no_deadlock_due_to_'' @ tid t))
         of Inl e \<Rightarrow> Inl e
          | Inr model' \<Rightarrow> add_dead_constraints num_places ts model')"

definition build_deadlock_ilp_model :: "petri_net \<Rightarrow> py_error + lp_model" where
  "build_deadlock_ilp_model net = add_dead_constraints (length (places net)) (transitions net) []"

text \<open>
  The solver (CBC behind PuLP, with its time limit) is a parameter: it maps the model to
  the status string \<^verbatim>\<open>LpStatus[model.status]\<close> and the \<^verbatim>\<open>varValue\<close> of each variable
  (\<open>None\<close> when unset). \<open>decode\<close> reads the marking off the values, \<open>block_constraint\<close> is the
  no-good constraint of a candidate.
\<close>

type_synonym solver = "lp_model \<Rightarrow> string \<times> (nat \<Rightarrow> rat option)"

definition decode :: "nat \<Rightarrow> (nat \<Rightarrow> rat option) \<Rightarrow> int" where
  "decode num_places vals =
     foldl (\<lambda>M i. let bit = (case vals i of None \<Rightarrow> (0::int) | Some v \<Rightarrow> if v > 1 / 2 then 1 else 0)
                   in if bit = 1 then M OR push_bit i 1 else M)
       0 [0..<num_places]"

definition block_constraint :: "nat \<Rightarrow> int \<Rightarrow> constraint" where
  "block_constraint num_places M =
     lp_le (map (\<lambda>i. if bit_at M i = 1 then X i else OneMinusX i) [0..<num_places])
           (int num_places - 1)"

text \<open>
  The \<^verbatim>\<open>while True\<close> loop of \<^verbatim>\<open>find_deadlock_with_ilp\<close>. The first component of the result
  is the returned \<^verbatim>\<open>dead_marking\<close> (the elapsed time is left out); the second lists the
  candidates decoded on the way, in order, and is not part of what the code returns.
  The loop ends at the latest when the counter passes \<^verbatim>\<open>max_iter\<close>.
\<close>

function ilp_loop ::
  "solver \<Rightarrow> (int \<Rightarrow> bool) \<Rightarrow> nat \<Rightarrow> int \<Rightarrow> lp_model \<Rightarrow> int \<Rightarrow> (py_error + int option) \<times> int list" where
  "ilp_loop solve is_reachable num_places max_iter model iteration0 =
     (let iteration = iteration0 + 1
      in if iteration > max_iter then (Inr None, [])
         else case solve model of (status_str, vals) \<Rightarrow>
           if status_str \<noteq> ''Optimal'' then (Inr None, [])
           else let M = decode num_places vals
                in if is_reachable M then (Inr (Some M), [M])
                   else case lp_iadd model (PyConstraint (block_constraint num_places M), ''block_'' @ dec (nat iteration)) of
                          Inl e \<Rightarrow> (Inl e, [M])
                        | Inr model' \<Rightarrow>
                            (case ilp_loop solve is_reachable num_places max_iter model' iteration of
                               (r, cands) \<Rightarrow> (r, M # cands)))"
  by pat_completeness auto
termination
  by (relation "measure (\<lambda>(solve, is_reachable, num_places, max_iter, model, iteration0). nat (max_iter - iteration0))") auto

definition find_deadlock_with_ilp ::
  "petri_net \<Rightarrow> (int \<Rightarrow> bool) \<Rightarrow> solver \<Rightarrow> int \<Rightarrow> py_error + int option" where
  "find_deadlock_with_ilp net is_reachable solve max_iter =
     (case build_deadlock_ilp_model net of
        Inl e \<Rightarrow> Inl e
      | Inr model \<Rightarrow> fst (ilp_loop solve is_reachable (length (places net)) max_iter model 0))"

definition candidates :: "petri_net \<Rightarrow> (int \<Rightarrow> bool) \<Rightarrow> solver \<Rightarrow> int \<Rightarrow> int list" where
  "candidates net is_reachable solve max_iter =
     (case build_deadlock_ilp_model net of
        Inl e \<Rightarrow> []
      | Inr model \<Rightarrow> snd (ilp_loop solve is_reachable (length (places net)) max_iter model 0))"

text \<open>What it means for a 0/1 assignment to satisfy a constraint.\<close>

fun term_val :: "(nat \<Rightarrow> int) \<Rightarrow> lin_term \<Rightarrow> int" where
  "term_val x (X i) = x i"
| "term_val x (OneMinusX i) = 1 - x i"

definition holds :: "(nat \<Rightarrow> int) \<Rightarrow> constraint \<Rightarrow> bool" where
  "holds x c = (case sense c of
                  GE \<Rightarrow> sum_list (map (term_val x) (terms c)) \<ge> rhs c
                | LE \<Rightarrow> sum_list (map (term_val x) (terms c)) \<le> rhs c)"

text \<open>
  A solver to run the loop with: it tries the 0/1 assignments in the order of the numbers
  they spell and reports the first that satisfies every constraint.
\<close>

definition assignment_of :: "int \<Rightarrow> nat \<Rightarrow> int" where
  "assignment_of k i = (if bit k i then 1 else 0)"

definition bf_solve :: "nat \<Rightarrow> solver" where
  "bf_solve n model =
     (case find (\<lambda>k. \<forall>c\<in>set model. holds (assignment_of k) c) (map int [0..<2 ^ n]) of
        None \<Rightarrow> (''Infeasible'', \<lambda>i. None)
      | Some k \<Rightarrow> (''Optimal'', \<lambda>i. Some (of_int (assignment_of k i))))"


text \<open>
  The contract of the solver (spec, section 6): with status Optimal it returns a concrete
  0/1 assignment that satisfies every constraint of the model.
\<close>

definition solver_sound :: "nat \<Rightarrow> solver \<Rightarrow> bool" where
  "solver_sound n solve \<longleftrightarrow>
     (\<forall>model vals. solve model = (''Optimal'', vals) \<longrightarrow>
        (\<exists>x. (\<forall>i<n. x i = 0 \<or> x i = 1) \<and> (\<forall>c\<in>set model. holds x c) \<and>
             (\<forall>i<n. vals i = Some (of_int (x i)))))"

lemma bit_decode:
  "bit (decode n vals) i \<longleftrightarrow> i < n \<and> (\<exists>v. vals i = Some v \<and> v > 1 / 2)"
proof (induction n)
  case 0
  show ?case by (simp add: decode_def)
next
  case (Suc n)
  have "decode (Suc n) vals =
      (if (case vals n of None \<Rightarrow> (0::int) | Some v \<Rightarrow> if v > 1 / 2 then 1 else 0) = 1
       then decode n vals OR push_bit n 1 else decode n vals)"
    by (simp add: decode_def Let_def)
  then show ?case using Suc
    by (auto simp: bit_or_iff bit_exp_iff less_Suc_eq split: option.splits if_splits)
qed

lemma holds_cname [simp]: "holds x (c\<lparr>cname := name\<rparr>) = holds x c"
  by (cases "sense c") (simp_all add: holds_def)

lemma sum_list_01:
  "(\<And>i. i < n \<Longrightarrow> f i = 0 \<or> f i = (1::int)) \<Longrightarrow>
   sum_list (map f [0..<n]) \<le> int n \<and> (sum_list (map f [0..<n]) = int n \<longleftrightarrow> (\<forall>i<n. f i = 1))"
proof (induction n)
  case 0
  show ?case by simp
next
  case (Suc n)
  have ih: "sum_list (map f [0..<n]) \<le> int n"
    "sum_list (map f [0..<n]) = int n \<longleftrightarrow> (\<forall>i<n. f i = 1)"
    using Suc.IH Suc.prems by auto
  have fn: "f n = 0 \<or> f n = 1" using Suc.prems by simp
  have s: "sum_list (map f [0..<Suc n]) = sum_list (map f [0..<n]) + f n" by simp
  show ?case
  proof
    show "sum_list (map f [0..<Suc n]) \<le> int (Suc n)" using ih(1) fn s by auto
    show "sum_list (map f [0..<Suc n]) = int (Suc n) \<longleftrightarrow> (\<forall>i<Suc n. f i = 1)"
    proof
      assume a: "sum_list (map f [0..<Suc n]) = int (Suc n)"
      then have "f n = 1 \<and> sum_list (map f [0..<n]) = int n" using ih(1) fn s by auto
      then show "\<forall>i<Suc n. f i = 1" using ih(2) by (auto simp: less_Suc_eq)
    next
      assume a: "\<forall>i<Suc n. f i = 1"
      then have "sum_list (map f [0..<n]) = int n" using ih(2) by simp
      then show "sum_list (map f [0..<Suc n]) = int (Suc n)" using a s by simp
    qed
  qed
qed

lemma holds_block_constraint:
  assumes bin: "\<forall>i<n. x i = 0 \<or> x i = 1"
  shows "holds x (block_constraint n M) \<longleftrightarrow> (\<exists>i<n. (x i = 1) \<noteq> bit M i)"
proof -
  let ?f = "\<lambda>i. term_val x (if bit M i then X i else OneMinusX i)"
  have f01: "\<And>i. i < n \<Longrightarrow> ?f i = 0 \<or> ?f i = 1" using bin by auto
  have f1: "?f i = 1 \<longleftrightarrow> (x i = 1) = bit M i" if "i < n" for i
    using bin that by auto
  from sum_list_01[of n ?f, OF f01]
  have le: "sum_list (map ?f [0..<n]) \<le> int n"
    and eq: "sum_list (map ?f [0..<n]) = int n \<longleftrightarrow> (\<forall>i<n. ?f i = 1)" by blast+
  have "holds x (block_constraint n M) \<longleftrightarrow> sum_list (map ?f [0..<n]) \<le> int n - 1"
    by (simp add: holds_def block_constraint_def lp_le_def comp_def)
  also have "\<dots> \<longleftrightarrow> sum_list (map ?f [0..<n]) \<noteq> int n" using le by linarith
  also have "\<dots> \<longleftrightarrow> \<not> (\<forall>i<n. ?f i = 1)" using eq by simp
  also have "\<dots> \<longleftrightarrow> (\<exists>i<n. (x i = 1) \<noteq> bit M i)" using f1 by blast
  finally show ?thesis .
qed


lemma ilp_loop_unfold:
  "ilp_loop solve isr n max_iter model it =
     (if it + 1 > max_iter then (Inr None, [])
      else if fst (solve model) \<noteq> ''Optimal'' then (Inr None, [])
      else if isr (decode n (snd (solve model))) then
             (Inr (Some (decode n (snd (solve model)))), [decode n (snd (solve model))])
      else (case lp_iadd model (PyConstraint (block_constraint n (decode n (snd (solve model)))),
                                ''block_'' @ dec (nat (it + 1))) of
              Inl e \<Rightarrow> (Inl e, [decode n (snd (solve model))])
            | Inr model' \<Rightarrow>
                (fst (ilp_loop solve isr n max_iter model' (it + 1)),
                 decode n (snd (solve model)) # snd (ilp_loop solve isr n max_iter model' (it + 1)))))"
  by (subst ilp_loop.simps) (simp add: Let_def split: prod.splits sum.splits)

lemma lp_iadd_constraint:
  "lp_iadd model (PyConstraint c, name) = Inr model' \<Longrightarrow> model' = model @ [c\<lparr>cname := pulp_name name\<rparr>]"
  by (simp split: if_splits)

declare ilp_loop.simps [simp del]

lemma candidate_fresh:
  assumes so: "solver_sound n solve" and op: "fst (solve model) = ''Optimal''"
    and B: "\<forall>M'\<in>B. \<exists>c\<in>set model. \<forall>x. holds x c = holds x (block_constraint n M')"
  shows "decode n (snd (solve model)) \<notin> B"
proof
  let ?M = "decode n (snd (solve model))"
  assume in_B: "?M \<in> B"
  have "solve model = (''Optimal'', snd (solve model))" using op by (metis prod.collapse)
  then obtain x where bin: "\<forall>i<n. x i = 0 \<or> x i = 1" and sat: "\<forall>c\<in>set model. holds x c"
    and vals: "\<forall>i<n. snd (solve model) i = Some (of_int (x i))"
    using so unfolding solver_sound_def by blast
  from B in_B obtain c where c: "c \<in> set model" "\<forall>y. holds y c = holds y (block_constraint n ?M)"
    by blast
  then have "holds x (block_constraint n ?M)" using sat by blast
  then obtain i where i: "i < n" "(x i = 1) \<noteq> bit ?M i"
    using holds_block_constraint[OF bin] by blast
  have "bit ?M i \<longleftrightarrow> x i = 1"
  proof -
    have xi: "x i = 0 \<or> x i = 1" using bin i(1) by blast
    have v: "snd (solve model) i = Some (of_int (x i))" using vals i(1) by blast
    show ?thesis unfolding bit_decode using i(1) v xi by auto
  qed
  with i(2) show False by simp
qed

lemma ilp_loop_distinct:
  assumes so: "solver_sound n solve"
  shows "(\<forall>M'\<in>B. \<exists>c\<in>set model. \<forall>x. holds x c = holds x (block_constraint n M')) \<Longrightarrow>
         distinct (snd (ilp_loop solve isr n max_iter model it)) \<and>
         set (snd (ilp_loop solve isr n max_iter model it)) \<inter> B = {}"
  using so
proof (induction solve isr n max_iter model it arbitrary: B rule: ilp_loop.induct)
  case (1 solve is_reachable num_places max_iter model iteration0)
  let ?M = "decode num_places (snd (solve model))"
  let ?name = "''block_'' @ dec (nat (iteration0 + 1))"
  let ?add = "lp_iadd model (PyConstraint (block_constraint num_places ?M), ?name)"
  consider (cap) "iteration0 + 1 > max_iter"
    | (status) "\<not> iteration0 + 1 > max_iter" "fst (solve model) \<noteq> ''Optimal''"
    | (found) "\<not> iteration0 + 1 > max_iter" "fst (solve model) = ''Optimal''" "is_reachable ?M"
    | (block) "\<not> iteration0 + 1 > max_iter" "fst (solve model) = ''Optimal''" "\<not> is_reachable ?M"
    by blast
  then show ?case
  proof cases
    case cap
    then show ?thesis by (subst (1 2) ilp_loop_unfold) simp
  next
    case status
    then show ?thesis by (subst (1 2) ilp_loop_unfold) simp
  next
    case found
    have "?M \<notin> B" by (rule candidate_fresh[OF "1.prems"(2) found(2) "1.prems"(1)])
    then show ?thesis using found by (subst (1 2) ilp_loop_unfold) simp
  next
    case block
    have fresh: "?M \<notin> B" by (rule candidate_fresh[OF "1.prems"(2) block(2) "1.prems"(1)])
    show ?thesis
    proof (cases ?add)
      case (Inl e)
      then show ?thesis using fresh block by (subst (1 2) ilp_loop_unfold) simp
    next
      case (Inr model')
      have m': "model' = model @ [(block_constraint num_places ?M)\<lparr>cname := pulp_name ?name\<rparr>]"
        by (rule lp_iadd_constraint[OF Inr])
      have B': "\<forall>M'\<in>insert ?M B. \<exists>c\<in>set model'. \<forall>x. holds x c = holds x (block_constraint num_places M')"
      proof
        fix M' assume "M' \<in> insert ?M B"
        then consider "M' = ?M" | "M' \<in> B" by blast
        then show "\<exists>c\<in>set model'. \<forall>x. holds x c = holds x (block_constraint num_places M')"
        proof cases
          case 1
          then show ?thesis unfolding m' by simp
        next
          case 2
          then show ?thesis using "1.prems"(1) unfolding m' by auto
        qed
      qed
      have sv: "(fst (solve model), snd (solve model)) = solve model" by simp
      have ih: "distinct (snd (ilp_loop solve is_reachable num_places max_iter model' (iteration0 + 1))) \<and>
          set (snd (ilp_loop solve is_reachable num_places max_iter model' (iteration0 + 1))) \<inter> insert ?M B = {}"
        by (rule "1.IH"[OF refl block(1) sv _ refl block(3) Inr B' "1.prems"(2)])
           (use block(2) in simp_all)
      show ?thesis using ih fresh block Inr by (subst (1 2) ilp_loop_unfold) auto
    qed
  qed
qed

lemma bf_solve_sound: "solver_sound n (bf_solve n)"
  unfolding solver_sound_def
proof (intro allI impI)
  fix model vals assume a: "bf_solve n model = (''Optimal'', vals)"
  then obtain k where k: "find (\<lambda>k. \<forall>c\<in>set model. holds (assignment_of k) c) (map int [0..<2 ^ n]) = Some k"
      and v: "vals = (\<lambda>i. Some (of_int (assignment_of k i)))"
    by (auto simp: bf_solve_def split: option.splits)
  from k have "\<forall>c\<in>set model. holds (assignment_of k) c"
    by (auto simp: find_Some_iff)
  then show "\<exists>x. (\<forall>i<n. x i = 0 \<or> x i = 1) \<and> (\<forall>c\<in>set model. holds x c) \<and>
             (\<forall>i<n. vals i = Some (of_int (x i)))"
    using v by (intro exI[of _ "assignment_of k"]) (simp add: assignment_of_def)
qed


lemma ilp_loop_found_reachable:
  "fst (ilp_loop solve isr n max_iter model it) = Inr (Some M) \<Longrightarrow> isr M"
proof (induction solve isr n max_iter model it rule: ilp_loop.induct)
  case (1 solve is_reachable num_places max_iter model iteration0)
  let ?M = "decode num_places (snd (solve model))"
  let ?name = "''block_'' @ dec (nat (iteration0 + 1))"
  let ?add = "lp_iadd model (PyConstraint (block_constraint num_places ?M), ?name)"
  consider (stop) "iteration0 + 1 > max_iter \<or> fst (solve model) \<noteq> ''Optimal''"
    | (found) "\<not> iteration0 + 1 > max_iter" "fst (solve model) = ''Optimal''" "is_reachable ?M"
    | (block) "\<not> iteration0 + 1 > max_iter" "fst (solve model) = ''Optimal''" "\<not> is_reachable ?M"
    by blast
  then show ?case
  proof cases
    case stop
    then show ?thesis using "1.prems" by (subst (asm) ilp_loop_unfold) (auto split: if_splits)
  next
    case found
    then show ?thesis using "1.prems" by (subst (asm) ilp_loop_unfold) simp
  next
    case block
    show ?thesis
    proof (cases ?add)
      case (Inl e)
      then show ?thesis using "1.prems" block by (subst (asm) ilp_loop_unfold) simp
    next
      case (Inr model')
      have sv: "(fst (solve model), snd (solve model)) = solve model" by simp
      have rec: "fst (ilp_loop solve is_reachable num_places max_iter model' (iteration0 + 1)) = Inr (Some M)"
        using "1.prems" block Inr by (subst (asm) ilp_loop_unfold) simp
      show ?thesis
        by (rule "1.IH"[OF refl block(1) sv _ refl block(3) Inr rec]) (use block(2) in simp_all)
    qed
  qed
qed

text \<open>
  C2, as amended. \<^verbatim>\<open>find_deadlock_with_ilp\<close> has two kinds of result, a marking or
  \<^verbatim>\<open>None\<close>. At every turn of the loop it returns \<^verbatim>\<open>None\<close> when the counter has passed
  \<^verbatim>\<open>max_iter\<close>, and \<^verbatim>\<open>None\<close> when the solver's status is anything but Optimal, infeasible
  and inconclusive alike; a marking is returned only if the oracle accepted it.
\<close>

theorem uncertain_outcomes_return_none:
  "(max_iter < it + 1 \<longrightarrow> fst (ilp_loop solve is_reachable n max_iter model it) = Inr None) \<and>
   (fst (solve model) \<noteq> ''Optimal'' \<longrightarrow> fst (ilp_loop solve is_reachable n max_iter model it) = Inr None) \<and>
   (\<forall>M. fst (ilp_loop solve is_reachable n max_iter model it) = Inr (Some M) \<longrightarrow> is_reachable M) \<and>
   (build_deadlock_ilp_model net = Inr model \<and> (max_iter < 1 \<or> fst (solve model) \<noteq> ''Optimal'') \<longrightarrow>
      find_deadlock_with_ilp net is_reachable solve max_iter = Inr None)"
proof -
  have a: "max_iter < it + 1 \<longrightarrow> fst (ilp_loop solve is_reachable n max_iter model it) = Inr None" for it n
    by (subst ilp_loop_unfold) simp
  have b: "fst (solve model) \<noteq> ''Optimal'' \<longrightarrow> fst (ilp_loop solve is_reachable n max_iter model it) = Inr None" for it n
    by (subst ilp_loop_unfold) simp
  have c: "\<forall>M. fst (ilp_loop solve is_reachable n max_iter model it) = Inr (Some M) \<longrightarrow> is_reachable M"
    using ilp_loop_found_reachable by blast
  have d: "build_deadlock_ilp_model net = Inr model \<and> (max_iter < 1 \<or> fst (solve model) \<noteq> ''Optimal'') \<longrightarrow>
      find_deadlock_with_ilp net is_reachable solve max_iter = Inr None"
    using a[of 0 "length (places net)"] b[of "length (places net)" 0]
    by (auto simp: find_deadlock_with_ilp_def)
  show ?thesis using a b c d by blast
qed

text \<open>On \<open>net0\<close>: a solver that reports "Not Solved", and a cap of 0 turns.\<close>

theorem uncertain_outcomes_return_none_witness:
  "build_deadlock_ilp_model net0 = Inr [\<lparr>terms = [OneMinusX 0], sense = GE, rhs = 1, cname = ''dead_t_t''\<rparr>] \<and>
   find_deadlock_with_ilp net0 (\<lambda>M. M = 1 \<or> M = 2) (\<lambda>model. (''Not Solved'', \<lambda>i. None)) 1000 = Inr None \<and>
   find_deadlock_with_ilp net0 (\<lambda>M. M = 1 \<or> M = 2) (bf_solve 2) 0 = Inr None"
proof -
  let ?m = "[\<lparr>terms = [OneMinusX 0], sense = GE, rhs = 1, cname = ''dead_t_t''\<rparr>]"
  have m: "build_deadlock_ilp_model net0 = Inr ?m" by code_simp
  have s: "fst ((\<lambda>model. (''Not Solved'', \<lambda>i. None)) ?m) \<noteq> ''Optimal''" by simp
  have z: "(0::int) < 1" by simp
  from uncertain_outcomes_return_none[where max_iter = 1000 and solve = "\<lambda>model. (''Not Solved'', \<lambda>i. None)" and model = ?m and is_reachable = "\<lambda>M. M = 1 \<or> M = 2" and net = net0] m s
  have a: "find_deadlock_with_ilp net0 (\<lambda>M. M = 1 \<or> M = 2) (\<lambda>model. (''Not Solved'', \<lambda>i. None)) 1000 = Inr None"
    by blast
  from uncertain_outcomes_return_none[where max_iter = 0 and solve = "bf_solve 2" and model = ?m and is_reachable = "\<lambda>M. M = 1 \<or> M = 2" and net = net0] m z
  have b: "find_deadlock_with_ilp net0 (\<lambda>M. M = 1 \<or> M = 2) (bf_solve 2) 0 = Inr None"
    by blast
  show ?thesis using m a b by blast
qed

text \<open>
  C2 as stated fails. On \<open>net0\<close>, whose reachable markings are 1 and 2 and whose marking
  2 is a reachable deadlock: an inconclusive solver status gives the same result as a
  proof of infeasibility, and so does a cap of one turn, although with a larger cap the
  search finds the deadlock.
\<close>

theorem uncertain_outcome_same_value:
  "find_deadlock_with_ilp net0 (\<lambda>M. M = 1 \<or> M = 2) (\<lambda>model. (''Not Solved'', \<lambda>i. None)) 1000 =
     find_deadlock_with_ilp net0 (\<lambda>M. M = 1 \<or> M = 2) (\<lambda>model. (''Infeasible'', \<lambda>i. None)) 1000 \<and>
   find_deadlock_with_ilp net0 (\<lambda>M. M = 1 \<or> M = 2) (bf_solve 2) 1 =
     find_deadlock_with_ilp net0 (\<lambda>M. M = 1 \<or> M = 2) (\<lambda>model. (''Infeasible'', \<lambda>i. None)) 1000 \<and>
   find_deadlock_with_ilp net0 (\<lambda>M. M = 1 \<or> M = 2) (bf_solve 2) 1 = Inr None \<and>
   find_deadlock_with_ilp net0 (\<lambda>M. M = 1 \<or> M = 2) (bf_solve 2) 1000 = Inr (Some 2)"
proof -
  have a: "find_deadlock_with_ilp net0 (\<lambda>M. M = 1 \<or> M = 2) (\<lambda>model. (''Not Solved'', \<lambda>i. None)) 1000 = Inr None"
    by code_simp
  have b: "find_deadlock_with_ilp net0 (\<lambda>M. M = 1 \<or> M = 2) (\<lambda>model. (''Infeasible'', \<lambda>i. None)) 1000 = Inr None"
    by code_simp
  have c: "find_deadlock_with_ilp net0 (\<lambda>M. M = 1 \<or> M = 2) (bf_solve 2) 1 = Inr None"
    by code_simp
  have d: "find_deadlock_with_ilp net0 (\<lambda>M. M = 1 \<or> M = 2) (bf_solve 2) 1000 = Inr (Some 2)"
    by code_simp
  show ?thesis using a b c d by simp
qed

text \<open>
  A net with a transition whose preset is empty: one place, and a transition that only
  produces a token on it.
\<close>

definition net_source :: petri_net where
  "net_source = \<lparr>places = [''p0''], place_index = [''p0'' \<mapsto> 0],
     transitions = [\<lparr>tid = ''t'', tname = ''t'', pre_mask = 0, post_mask = 1\<rparr>], initial = 0\<rparr>"

text \<open>
  C3 fails on the code. For a net with a transition of empty preset
  \<^verbatim>\<open>build_deadlock_ilp_model\<close> does not produce a model with an unsatisfiable constraint:
  the operand \<^verbatim>\<open>0 >= 1\<close> is the bool \<^verbatim>\<open>False\<close>, the addition raises, and the search ends
  with the exception.
\<close>

theorem empty_preset_raises:
  "build_deadlock_ilp_model net_source = Inl TypeError \<and>
   find_deadlock_with_ilp net_source is_reachable solve max_iter = Inl TypeError"
proof -
  have "build_deadlock_ilp_model net_source = Inl TypeError"
    by (simp add: build_deadlock_ilp_model_def net_source_def)
  then show ?thesis by (simp add: find_deadlock_with_ilp_def)
qed

text \<open>
  C9. With a solver that keeps its contract, no two solver calls of
  \<^verbatim>\<open>find_deadlock_with_ilp\<close> decode to the same candidate; and the blocking constraint of
  a candidate \<open>M\<close> excludes, among the 0/1 assignments, exactly the assignment \<open>M\<close>: an
  assignment satisfies it if and only if it differs from \<open>M\<close> in some bit. Constraints
  are only ever appended to the model.
\<close>

theorem no_candidate_twice:
  assumes "solver_sound (length (places net)) solve"
  shows "distinct (candidates net is_reachable solve max_iter) \<and>
         (\<forall>M x. (\<forall>i<length (places net). x i = 0 \<or> x i = 1) \<longrightarrow>
            (holds x (block_constraint (length (places net)) M) \<longleftrightarrow>
             (\<exists>i<length (places net). (x i = 1) \<noteq> bit M i)))"
proof -
  have "distinct (candidates net is_reachable solve max_iter)"
  proof (cases "build_deadlock_ilp_model net")
    case (Inl e)
    then show ?thesis by (simp add: candidates_def)
  next
    case (Inr model)
    have "distinct (snd (ilp_loop solve is_reachable (length (places net)) max_iter model 0)) \<and>
          set (snd (ilp_loop solve is_reachable (length (places net)) max_iter model 0)) \<inter> {} = {}"
      by (rule ilp_loop_distinct[OF assms]) simp
    then show ?thesis using Inr by (simp add: candidates_def)
  qed
  then show ?thesis using holds_block_constraint by blast
qed

text \<open>
  On \<open>net0\<close> with the enumerating solver: the candidates are 0 (dead, not reachable) and
  then 2; the blocking constraint of 0 refuses the assignment 0 and lets 2 pass.
\<close>

theorem no_candidate_twice_witness:
  "solver_sound (length (places net0)) (bf_solve 2) \<and>
   candidates net0 (\<lambda>M. M = 1 \<or> M = 2) (bf_solve 2) 1000 = [0, 2] \<and>
   distinct (candidates net0 (\<lambda>M. M = 1 \<or> M = 2) (bf_solve 2) 1000) \<and>
   \<not> holds (\<lambda>i. 0) (block_constraint 2 0) \<and> holds (\<lambda>i. if i = 1 then 1 else 0) (block_constraint 2 0)"
proof -
  have n: "length (places net0) = 2" by (simp add: net0_def)
  have s: "solver_sound (length (places net0)) (bf_solve 2)" unfolding n by (rule bf_solve_sound)
  have c: "candidates net0 (\<lambda>M. M = 1 \<or> M = 2) (bf_solve 2) 1000 = [0, 2]" by code_simp
  note inst = no_candidate_twice[OF s, of "\<lambda>M. M = 1 \<or> M = 2" 1000]
  have d: "distinct (candidates net0 (\<lambda>M. M = 1 \<or> M = 2) (bf_solve 2) 1000)"
    by (rule conjunct1[OF inst])
  note h = conjunct2[OF inst, unfolded n, rule_format]
  have e: "\<not> holds (\<lambda>i. 0) (block_constraint 2 0)"
    using h[of "\<lambda>i. 0" 0] by simp
  have "\<exists>i<2::nat. ((if i = 1 then 1 else (0::int)) = 1) \<noteq> bit (0::int) i"
    by (intro exI[of _ 1]) simp
  then have f: "holds (\<lambda>i. if i = 1 then 1 else 0) (block_constraint 2 0)"
    using h[of "\<lambda>i. if i = 1 then 1 else 0" 0] by simp
  show ?thesis using s c d e f by simp
qed

section \<open>Optimal marking (optimization.py and Task 5 of main.py)\<close>

text \<open>
  The names \<^verbatim>\<open>build_reachability_bdd\<close> gives its variables: \<^verbatim>\<open>_sanitize\<close> replaces every
  character outside \<^verbatim>\<open>[0-9A-Za-z_]\<close> by an underscore, the current variable of place \<open>i\<close>
  is \<^verbatim>\<open>v{i}_{base}\<close> and its next variable \<^verbatim>\<open>v{i}_{base}_next\<close>. \<open>var_name\<close> is the name of the
  variable of a level (\<^verbatim>\<open>str(bdd_node.var)\<close>); levels the net does not declare have none.
  A character is a \<open>char\<close>, that is a code point below 256.
\<close>

definition is_word_char :: "char \<Rightarrow> bool" where
  "is_word_char c \<longleftrightarrow>
     (let k = (of_char c :: nat)
      in (48 \<le> k \<and> k \<le> 57) \<or> (65 \<le> k \<and> k \<le> 90) \<or> (97 \<le> k \<and> k \<le> 122) \<or> k = 95)"

definition sanitize :: "string \<Rightarrow> string" where
  "sanitize name = map (\<lambda>c. if is_word_char c then c else CHR ''_'') name"

definition curr_name :: "nat \<Rightarrow> string \<Rightarrow> string" where
  "curr_name i pname = ''v'' @ dec i @ ''_'' @ sanitize pname"

definition next_name :: "nat \<Rightarrow> string \<Rightarrow> string" where
  "next_name i pname = ''v'' @ dec i @ ''_'' @ sanitize pname @ ''_next''"

definition var_name :: "string list \<Rightarrow> nat \<Rightarrow> string" where
  "var_name ps v =
     (if v div 2 < length ps
      then (if even v then curr_name (v div 2) (ps ! (v div 2)) else next_name (v div 2) (ps ! (v div 2)))
      else [])"

text \<open>
  \<^verbatim>\<open>get_original_name\<close>: \<^verbatim>\<open>re.match(r"v\d+_(.+)", name)\<close> and its first group, or the name
  itself when there is no match. The pattern is a \<^verbatim>\<open>v\<close>, all the digits that follow (at
  least one), an underscore, and then as many characters as there are up to the first
  newline (at least one).
\<close>

definition is_digit :: "char \<Rightarrow> bool" where
  "is_digit c \<longleftrightarrow> (let k = (of_char c :: nat) in 48 \<le> k \<and> k \<le> 57)"

definition get_original_name :: "string \<Rightarrow> string" where
  "get_original_name bdd_var_name =
     (case bdd_var_name of
        [] \<Rightarrow> bdd_var_name
      | c # rest \<Rightarrow>
          if c \<noteq> CHR ''v'' then bdd_var_name
          else let digits = takeWhile is_digit rest; after = dropWhile is_digit rest
               in if digits = [] then bdd_var_name
                  else (case after of
                          [] \<Rightarrow> bdd_var_name
                        | u # body \<Rightarrow>
                            if u \<noteq> CHR ''_'' then bdd_var_name
                            else let group1 = takeWhile (\<lambda>c. c \<noteq> CHR 0x0A) body
                                 in if group1 = [] then bdd_var_name else group1))"

text \<open>
  A node handed out by the diagram library (\<^verbatim>\<open>dd.autoref\<close>, an external library) is an
  object of the library's class \<^verbatim>\<open>Function\<close>, the two terminals included. Its \<^verbatim>\<open>==\<close> takes
  another node of the same manager: given a Python integer it raises, whatever the node.
  \<open>node_eq_int\<close> is \<^verbatim>\<open>bdd_node == k\<close> for an integer \<open>k\<close>.
\<close>

definition node_eq_int :: "bdd \<Rightarrow> int \<Rightarrow> py_error + bool" where
  "node_eq_int bdd_node k = Inl EqRefused"

text \<open>
  A score is \<^verbatim>\<open>float('-inf')\<close> or a Python integer. \<^verbatim>\<open>find_optimal_marking\<close> first
  compares the node with the integers 0 and 1, then looks the node up in the cache, then
  reads \<^verbatim>\<open>bdd_node.var\<close>, \<^verbatim>\<open>.low\<close> and \<^verbatim>\<open>.high\<close> (a terminal has no variable) and calls
  itself on the two children. An exception raised by a step ends the call with that
  exception. The cache, keyed by \<^verbatim>\<open>id(bdd_node)\<close>, is keyed
  by the node here; it is threaded through the calls and returned, as the dictionary the
  code mutates.
\<close>

datatype score = NegInf | Fin int

fun score_ge :: "score \<Rightarrow> score \<Rightarrow> bool" where
  "score_ge a NegInf = True"
| "score_ge NegInf (Fin b) = False"
| "score_ge (Fin a) (Fin b) = (a \<ge> b)"

type_synonym marking_dict = "string \<rightharpoonup> int"

type_synonym memo = "bdd \<rightharpoonup> score \<times> marking_dict"

definition weights_get :: "(string \<rightharpoonup> int) \<Rightarrow> string \<Rightarrow> int" where
  "weights_get weights k = (case weights k of None \<Rightarrow> 0 | Some w \<Rightarrow> w)"

fun find_optimal_marking ::
  "(nat \<Rightarrow> string) \<Rightarrow> bdd \<Rightarrow> (string \<rightharpoonup> int) \<Rightarrow> memo \<Rightarrow> py_error + ((score \<times> marking_dict) \<times> memo)" where
  "find_optimal_marking names bdd_node weights memo =
     (case node_eq_int bdd_node 0 of
        Inl e \<Rightarrow> Inl e
      | Inr True \<Rightarrow> Inr ((NegInf, Map.empty), memo)
      | Inr False \<Rightarrow>
     (case node_eq_int bdd_node 1 of
        Inl e \<Rightarrow> Inl e
      | Inr True \<Rightarrow> Inr ((Fin 0, Map.empty), memo)
      | Inr False \<Rightarrow>
     (case memo bdd_node of
        Some r \<Rightarrow> Inr (r, memo)
      | None \<Rightarrow>
     (case bdd_node of
        Leaf b \<Rightarrow> Inl NoVariable
      | Node v l h \<Rightarrow>
          (let original_place_name = get_original_name (names v);
               w = weights_get weights original_place_name
           in case find_optimal_marking names l weights memo of
                Inl e \<Rightarrow> Inl e
              | Inr ((score_low, path_low), memo1) \<Rightarrow>
             (case find_optimal_marking names h weights memo1 of
                Inl e \<Rightarrow> Inl e
              | Inr ((score_high0, path_high), memo2) \<Rightarrow>
                  let score_high = (case score_high0 of NegInf \<Rightarrow> NegInf | Fin s \<Rightarrow> Fin (s + w));
                      result = (if score_ge score_high score_low
                                then (score_high, path_high(original_place_name \<mapsto> 1))
                                else (score_low, path_low(original_place_name \<mapsto> 0)))
                  in Inr (result, memo2(bdd_node \<mapsto> result))))))))"

declare find_optimal_marking.simps [simp del]

text \<open>
  \<^verbatim>\<open>complete_and_optimize_marking\<close>: one turn of its loop over the places, and the loop.
\<close>

fun complete_step ::
  "marking_dict \<Rightarrow> (string \<rightharpoonup> int) \<Rightarrow> marking_dict \<times> int \<Rightarrow> string \<Rightarrow> marking_dict \<times> int" where
  "complete_step partial_marking weights (full_marking, extra_score) p =
     (case partial_marking p of
        Some b \<Rightarrow> (full_marking(p \<mapsto> b), extra_score)
      | None \<Rightarrow>
          (let w = weights_get weights p
           in if w > 0 then (full_marking(p \<mapsto> 1), extra_score + w)
              else (full_marking(p \<mapsto> 0), extra_score)))"

definition complete_and_optimize_marking ::
  "marking_dict \<Rightarrow> string list \<Rightarrow> (string \<rightharpoonup> int) \<Rightarrow> marking_dict \<times> int" where
  "complete_and_optimize_marking partial_marking ps weights =
     foldl (complete_step partial_marking weights) (Map.empty, 0) ps"

text \<open>
  Task 5 of \<^verbatim>\<open>main\<close>. The weights are drawn with \<^verbatim>\<open>random.randint(-5, 10)\<close>, one per
  place in order; \<open>randint i\<close> is the \<open>i\<close>-th draw. \<open>optimize_task\<close> is the task from the call
  of \<^verbatim>\<open>find_optimal_marking(R, weights)\<close> on: an exception of that call is not caught and
  ends the program; otherwise the outcome is "no reachable marking", or the reported
  objective value \<^verbatim>\<open>final_total_score\<close> together with the verification sum \<^verbatim>\<open>check_sum\<close>.
  \<open>run_optimize\<close> is the run with \<^verbatim>\<open>--optimize\<close>: the diagram is built, the weights are
  drawn, the task runs (\<open>None\<close>: the construction of the diagram does not return).
\<close>

definition make_weights :: "string list \<Rightarrow> (nat \<Rightarrow> int) \<Rightarrow> (string \<rightharpoonup> int)" where
  "make_weights ps randint = foldl (\<lambda>weights (i, p). weights(p \<mapsto> randint i)) Map.empty (enumerate 0 ps)"

datatype opt_result = NoReachableMarking | FoundOptimal int int

definition optimize_task :: "petri_net \<Rightarrow> (string \<rightharpoonup> int) \<Rightarrow> bdd \<Rightarrow> py_error + opt_result" where
  "optimize_task net weights R =
     (case find_optimal_marking (var_name (places net)) R weights Map.empty of
        Inl e \<Rightarrow> Inl e
      | Inr ((base_max_val, partial_marking), memo) \<Rightarrow>
          (case base_max_val of
             NegInf \<Rightarrow> Inr NoReachableMarking
           | Fin base \<Rightarrow>
               (case complete_and_optimize_marking partial_marking (places net) weights of
                  (final_marking_dict, extra_score) \<Rightarrow>
                    let final_total_score = base + extra_score;
                        check_sum = sum_list (map (\<lambda>p. the (weights p) * the (final_marking_dict p)) (places net))
                    in Inr (FoundOptimal final_total_score check_sum))))"

definition run_optimize :: "petri_net \<Rightarrow> (nat \<Rightarrow> int) \<Rightarrow> (py_error + opt_result) option" where
  "run_optimize net randint =
     map_option (\<lambda>(R, curr_vars). optimize_task net (make_weights (places net) randint) R)
       (build_reachability_bdd net)"

subsection \<open>The variable names are pairwise distinct\<close>

text \<open>
  The names of two different levels of a net differ, because each starts with the index
  of its place; this is what lets a variable be identified with its level. And the name
  recovered from the current variable of a place is the sanitized identifier of the
  place, not the identifier.
\<close>

definition read_dec :: "string \<Rightarrow> nat" where
  "read_dec s = foldl (\<lambda>a c. 10 * a + (of_char c - 48)) 0 s"

lemma read_dec_snoc: "read_dec (s @ [c]) = 10 * read_dec s + (of_char c - 48)"
  by (simp add: read_dec_def)

lemma of_char_digit: "d < 10 \<Longrightarrow> (of_char (char_of (48 + d)) :: nat) = 48 + d"
  by simp

lemma read_dec_dec: "read_dec (dec n) = n"
proof (induction n rule: dec.induct)
  case (1 n)
  show ?case
  proof (cases "n < 10")
    case True
    then show ?thesis by (subst dec.simps) (simp add: read_dec_def)
  next
    case False
    have "read_dec (dec n) = 10 * read_dec (dec (n div 10)) + (of_char (char_of (48 + n mod 10)) - 48)"
      using False by (subst dec.simps) (simp add: read_dec_snoc)
    also have "\<dots> = 10 * (n div 10) + n mod 10"
      using 1[OF False] by simp
    finally show ?thesis by simp
  qed
qed

lemma dec_inj: "dec m = dec n \<Longrightarrow> m = n"
  by (metis read_dec_dec)

lemma dec_digits: "c \<in> set (dec n) \<Longrightarrow> is_digit c"
proof (induction n rule: dec.induct)
  case (1 n)
  show ?case
  proof (cases "n < 10")
    case True
    then have "c = char_of (48 + n)" using 1(2) by (subst (asm) dec.simps) simp
    then show ?thesis using True by (simp add: is_digit_def)
  next
    case False
    then have "c \<in> set (dec (n div 10)) \<or> c = char_of (48 + n mod 10)"
      using 1(2) by (subst (asm) dec.simps) auto
    then show ?thesis
    proof
      assume "c \<in> set (dec (n div 10))"
      then show ?thesis by (rule 1(1)[OF False])
    next
      assume "c = char_of (48 + n mod 10)"
      then show ?thesis by (simp add: is_digit_def)
    qed
  qed
qed

lemma dec_nonempty: "dec n \<noteq> []"
  by (subst dec.simps) simp

lemma takeWhile_digits_dec: "takeWhile is_digit (dec i @ CHR ''_'' # rest) = dec i"
proof -
  have "\<not> is_digit CHR ''_''" by (simp add: is_digit_def)
  then show ?thesis using dec_digits by (simp add: takeWhile_append2 takeWhile_tail)
qed

lemma dropWhile_digits_dec: "dropWhile is_digit (dec i @ CHR ''_'' # rest) = CHR ''_'' # rest"
proof -
  have "\<not> is_digit CHR ''_''" by (simp add: is_digit_def)
  then show ?thesis using dec_digits by (simp add: dropWhile_append2)
qed

lemma var_name_index:
  assumes "v div 2 < length ps"
  shows "\<exists>rest. var_name ps v = CHR ''v'' # dec (v div 2) @ CHR ''_'' # rest"
  using assms by (auto simp: var_name_def curr_name_def next_name_def)

lemma var_name_inj:
  assumes v: "v div 2 < length ps" and w: "w div 2 < length ps"
    and e: "var_name ps v = var_name ps w"
  shows "v = w"
proof -
  obtain r1 where r1: "var_name ps v = CHR ''v'' # dec (v div 2) @ CHR ''_'' # r1"
    using var_name_index[OF v] by blast
  obtain r2 where r2: "var_name ps w = CHR ''v'' # dec (w div 2) @ CHR ''_'' # r2"
    using var_name_index[OF w] by blast
  have "dec (v div 2) @ CHR ''_'' # r1 = dec (w div 2) @ CHR ''_'' # r2" using e r1 r2 by simp
  then have "takeWhile is_digit (dec (v div 2) @ CHR ''_'' # r1) =
             takeWhile is_digit (dec (w div 2) @ CHR ''_'' # r2)" by simp
  then have "dec (v div 2) = dec (w div 2)" by (simp only: takeWhile_digits_dec)
  then have d: "v div 2 = w div 2" by (rule dec_inj)
  have "even v = even w"
  proof (rule ccontr)
    assume n: "even v \<noteq> even w"
    have "length (var_name ps v) \<noteq> length (var_name ps w)"
      using n v w d by (auto simp: var_name_def curr_name_def next_name_def)
    with e show False by simp
  qed
  with d show ?thesis by (metis dvd_mult_div_cancel odd_two_times_div_two_succ)
qed

lemma get_original_name_var_name:
  assumes "v div 2 < length ps" "even v" "ps ! (v div 2) \<noteq> []"
  shows "get_original_name (var_name ps v) = sanitize (ps ! (v div 2))"
proof -
  let ?b = "sanitize (ps ! (v div 2))"
  have ne: "?b \<noteq> []" using assms(3) by (simp add: sanitize_def)
  have nl: "\<forall>c\<in>set ?b. c \<noteq> CHR 0x0A" by (auto simp: sanitize_def is_word_char_def Let_def)
  then have tw: "takeWhile (\<lambda>c. c \<noteq> CHR 0x0A) ?b = ?b" by (simp add: takeWhile_eq_all_conv)
  have vn: "var_name ps v = CHR ''v'' # dec (v div 2) @ CHR ''_'' # ?b"
    using assms by (simp add: var_name_def curr_name_def)
  have "get_original_name (CHR ''v'' # dec (v div 2) @ CHR ''_'' # ?b) =
      (if takeWhile (\<lambda>c. c \<noteq> CHR 0x0A) ?b = [] then CHR ''v'' # dec (v div 2) @ CHR ''_'' # ?b
       else takeWhile (\<lambda>c. c \<noteq> CHR 0x0A) ?b)"
    by (simp add: get_original_name_def takeWhile_digits_dec dropWhile_digits_dec Let_def dec_nonempty
        del: takeWhile_eq_Nil_iff)
  then show ?thesis unfolding vn tw using ne by simp
qed

subsection \<open>The comparison with the terminals\<close>

text \<open>
  C4 fails on the code. The first statement of \<^verbatim>\<open>find_optimal_marking\<close>,
  \<^verbatim>\<open>if bdd_node == 0\<close>, compares a node of the diagram with a Python integer, which the
  library refuses: whatever the node (a terminal or not), the weights and the cache, the
  call raises. No score is computed and no assignment is returned; in particular the
  call on the diagram that \<^verbatim>\<open>build_reachability_bdd\<close> returns for \<open>net0\<close> raises.
\<close>

theorem find_optimal_marking_raises:
  "find_optimal_marking names bdd_node weights memo = Inl EqRefused \<and>
   build_reachability_bdd net0 =
     Some (Node 0 (Node 2 (Leaf False) (Leaf True)) (Node 2 (Leaf True) (Leaf False)), [0, 2]) \<and>
   find_optimal_marking (var_name (places net0))
     (Node 0 (Node 2 (Leaf False) (Leaf True)) (Node 2 (Leaf True) (Leaf False)))
     [''p0'' \<mapsto> 2, ''p1'' \<mapsto> 5] Map.empty = Inl EqRefused"
proof -
  have a: "find_optimal_marking names node weights memo = Inl EqRefused" for names node weights memo
    by (subst find_optimal_marking.simps) (simp add: node_eq_int_def)
  have b: "build_reachability_bdd net0 =
     Some (Node 0 (Node 2 (Leaf False) (Leaf True)) (Node 2 (Leaf True) (Leaf False)), [0, 2])"
    by (rule build_net0)
  show ?thesis using a b by simp
qed

text \<open>
  C5 fails on the code for the same reason. A run of the optimization task builds the
  diagram, draws the weights and calls \<^verbatim>\<open>find_optimal_marking(R, weights)\<close>; the call
  raises, \<^verbatim>\<open>main\<close> does not catch the exception, and the run ends before an objective value
  or a verification sum is reported. This is so for every net and every draw of the
  weights.
\<close>

theorem run_optimize_raises:
  "run_optimize net randint = Some (Inl EqRefused)"
proof -
  obtain k where k: "build_reachability_bdd net = Some (iterate net k, map fst (bdd_vars net))"
    using build_reachability_bdd_iterate by blast
  have f: "find_optimal_marking names node weights memo = Inl EqRefused" for names node weights memo
    by (subst find_optimal_marking.simps) (simp add: node_eq_int_def)
  show ?thesis by (simp add: run_optimize_def k optimize_task_def f)
qed

section \<open>Firing rule: enabling and frame\<close>

text \<open>
  C8. \<^verbatim>\<open>is_enabled(M, t)\<close> holds exactly when every preset place of \<open>t\<close> (every bit of
  \<open>pre_mask\<close>) holds a token in \<open>M\<close>. Where \<open>t\<close> is enabled, \<^verbatim>\<open>fire(M, t)\<close> keeps the token
  value of every place outside preset and postset, empties every place that is in the
  preset only, and fills every postset place.
\<close>

theorem is_enabled_fire_frame:
  "(is_enabled M t \<longleftrightarrow> (\<forall>i. bit (pre_mask t) i \<longrightarrow> bit M i)) \<and>
   (is_enabled M t \<longrightarrow>
      (\<forall>i. (\<not> bit (pre_mask t) i \<and> \<not> bit (post_mask t) i \<longrightarrow> bit (fire M t) i = bit M i) \<and>
           (bit (pre_mask t) i \<and> \<not> bit (post_mask t) i \<longrightarrow> \<not> bit (fire M t) i) \<and>
           (bit (post_mask t) i \<longrightarrow> bit (fire M t) i)))"
proof -
  have en: "is_enabled M t \<longleftrightarrow> (\<forall>i. bit (pre_mask t) i \<longrightarrow> bit M i)"
    unfolding is_enabled_def by (auto simp: bit_eq_iff bit_and_iff)
  have fr: "bit (fire M t) i \<longleftrightarrow> bit (post_mask t) i \<or> (bit M i \<and> \<not> bit (pre_mask t) i)" for i
    unfolding fire_def by (auto simp: bit_or_iff bit_and_iff bit_not_iff)
  show ?thesis using en fr by blast
qed

text \<open>
  The marking \<open>{p0, p2}\<close> (5) and a transition from \<open>p0\<close> to \<open>p1\<close>: enabled, and firing
  gives \<open>{p1, p2}\<close> (6), with \<open>p2\<close> untouched.
\<close>

theorem is_enabled_fire_frame_witness:
  "is_enabled 5 \<lparr>tid = ''t'', tname = ''t'', pre_mask = 1, post_mask = 2\<rparr> \<and>
   fire 5 \<lparr>tid = ''t'', tname = ''t'', pre_mask = 1, post_mask = 2\<rparr> = 6 \<and>
   bit (fire 5 \<lparr>tid = ''t'', tname = ''t'', pre_mask = 1, post_mask = 2\<rparr>) 2 = bit (5::int) 2 \<and>
   \<not> bit (fire 5 \<lparr>tid = ''t'', tname = ''t'', pre_mask = 1, post_mask = 2\<rparr>) 0 \<and>
   bit (fire 5 \<lparr>tid = ''t'', tname = ''t'', pre_mask = 1, post_mask = 2\<rparr>) 1"
proof -
  let ?t = "\<lparr>tid = ''t'', tname = ''t'', pre_mask = 1, post_mask = 2\<rparr>"
  have en: "is_enabled 5 ?t" by (simp add: is_enabled_def)
  have v: "fire 5 ?t = 6" by (simp add: fire_def)
  have pre: "bit (pre_mask ?t) 0" "\<not> bit (pre_mask ?t) 2" "\<not> bit (pre_mask ?t) (Suc 0)" by simp_all
  have post: "\<not> bit (post_mask ?t) 0" "\<not> bit (post_mask ?t) 2" by (simp_all add: bit_numeral_Bit0_iff)
  have post1: "bit (post_mask ?t) 1" by (simp add: bit_numeral_Bit0_iff)
  from is_enabled_fire_frame [of 5 ?t] en
  have all: "\<forall>i. (\<not> bit (pre_mask ?t) i \<and> \<not> bit (post_mask ?t) i \<longrightarrow> bit (fire 5 ?t) i = bit (5::int) i) \<and>
           (bit (pre_mask ?t) i \<and> \<not> bit (post_mask ?t) i \<longrightarrow> \<not> bit (fire 5 ?t) i) \<and>
           (bit (post_mask ?t) i \<longrightarrow> bit (fire 5 ?t) i)" by blast
  from all pre post have a: "bit (fire 5 ?t) 2 = bit (5::int) 2" by blast
  from all pre post have b: "\<not> bit (fire 5 ?t) 0" by blast
  from all post1 have c: "bit (fire 5 ?t) 1" by blast
  show ?thesis using en v a b c by blast
qed

end
